theory Spec2Isabelle
  imports Complex_Main "HOL-Library.AList" "HOL-Library.Char_ord" "HOL-Library.List_Lexorder"
    "HOL-Library.Multiset"
begin

section \<open>Data model\<close>

text \<open>
  A cell of a data frame. Columns declared \<^verbatim>\<open>object\<close> in \<^verbatim>\<open>dtype_definitions\<close> hold
  Python strings (\<open>Str\<close>) or the missing value (\<open>NaN\<close>); encoded columns hold integer codes
  (\<open>Num\<close>). Any other Python value (a float, a timestamp) is carried by its printed form
  (\<open>Other\<close>).
\<close>

datatype cell = Str string | NaN | Num int | Other string

text \<open>
  A data frame is the ordered list of its columns, each a name with its values, as
  \<^verbatim>\<open>ddf.columns\<close> and \<^verbatim>\<open>ddf[col]\<close> present it.
\<close>

type_synonym dataframe = "(string \<times> cell list) list"

definition columns :: "dataframe \<Rightarrow> string list" where
  "columns ddf = map fst ddf"

text \<open>\<^verbatim>\<open>ddf[col]\<close>. The callers modelled with \<open>series\<close> guard it by \<^verbatim>\<open>col in ddf.columns\<close>.\<close>

definition series :: "dataframe \<Rightarrow> string \<Rightarrow> cell list" where
  "series ddf col = (case map_of ddf col of Some vs \<Rightarrow> vs | None \<Rightarrow> [])"

text \<open>
  \<^verbatim>\<open>ddf[name] = vs\<close>: an existing column is replaced where it stands, a new one is appended
  as the last column.
\<close>

definition setitem :: "dataframe \<Rightarrow> string \<Rightarrow> cell list \<Rightarrow> dataframe" where
  "setitem ddf name vs = AList.update name vs ddf"

text \<open>\<^verbatim>\<open>ddf.drop(columns=names)\<close>: the columns not named, in their order.\<close>

definition drop_columns :: "dataframe \<Rightarrow> string list \<Rightarrow> dataframe" where
  "drop_columns ddf names = filter (\<lambda>(c, vs). c \<notin> set names) ddf"

text \<open>\<^verbatim>\<open>ddf[mask]\<close>: the rows at which the boolean mask holds, in every column.\<close>

definition select :: "bool list \<Rightarrow> 'a list \<Rightarrow> 'a list" where
  "select keep vs = map snd (filter fst (zip keep vs))"

definition getitem_mask :: "dataframe \<Rightarrow> bool list \<Rightarrow> dataframe" where
  "getitem_mask ddf keep = map (\<lambda>(c, vs). (c, select keep vs)) ddf"

subsection \<open>Stringification and lower-casing\<close>

definition digit_char :: "nat \<Rightarrow> char" where
  "digit_char d = ''0123456789'' ! d"

fun digits :: "nat \<Rightarrow> string" where
  "digits n = (if n < 10 then [digit_char n] else digits (n div 10) @ [digit_char (n mod 10)])"

declare digits.simps [simp del]

definition str_int :: "int \<Rightarrow> string" where
  "str_int i = (if i < 0 then CHR ''-'' # digits (nat (- i)) else digits (nat i))"

text \<open>Python's \<^verbatim>\<open>str(v)\<close>; the missing value prints as \<^verbatim>\<open>nan\<close>.\<close>

fun str :: "cell \<Rightarrow> string" where
  "str (Str s) = s"
| "str NaN = ''nan''"
| "str (Num i) = str_int i"
| "str (Other s) = s"

text \<open>\<^verbatim>\<open>str.lower()\<close> on the ASCII letters; every other character is left as it is.\<close>

definition lower_char :: "char \<Rightarrow> char" where
  "lower_char c =
     (case map_of (zip ''ABCDEFGHIJKLMNOPQRSTUVWXYZ'' ''abcdefghijklmnopqrstuvwxyz'') c of
        Some d \<Rightarrow> d
      | None \<Rightarrow> c)"

definition lower :: "string \<Rightarrow> string" where
  "lower s = map lower_char s"

section \<open>DataProcessor.encode\_categorical\_columns\<close>

text \<open>
  The state that \<^verbatim>\<open>DataProcessor.__init__\<close> sets up: the two column lists, which no method
  reassigns, and the empty \<^verbatim>\<open>self.encoding_maps\<close>.
\<close>

definition bool_columns :: "string list" where
  "bool_columns = [''ZUSATZFAHRT_TF'', ''FAELLT_AUS_TF'', ''DURCHFAHRT_TF'']"

definition categorical_columns :: "string list" where
  "categorical_columns =
     [''FAHRT_BEZEICHNER'', ''BETREIBER_ABK'', ''LINIEN_ID'', ''LINIEN_TEXT'', ''BPUIC'']"

text \<open>
  A Python dict from strings to codes, in insertion order; \<^verbatim>\<open>self.encoding_maps\<close> is a dict
  of such dicts, keyed by column name.
\<close>

type_synonym mapping = "(string \<times> int) list"

type_synonym encoding_maps = "(string \<times> mapping) list"

definition initial_encoding_maps :: encoding_maps where
  "initial_encoding_maps = []"

definition bool_mapping :: mapping where
  "bool_mapping = [(''false'', 0), (''true'', 1), (''False'', 0), (''True'', 1)]"

text \<open>\<^verbatim>\<open>f'{col}_encoded'\<close>\<close>

definition encoded_name :: "string \<Rightarrow> string" where
  "encoded_name col = col @ ''_encoded''"

text \<open>
  One element of \<^verbatim>\<open>Series.map(mapping)\<close>: the code of a key of the dict, the missing value
  for every other string.
\<close>

definition map_value :: "mapping \<Rightarrow> string \<Rightarrow> cell" where
  "map_value m s = (case map_of m s of Some code \<Rightarrow> Num code | None \<Rightarrow> NaN)"

text \<open>\<^verbatim>\<open>ddf[col].astype(str).str.lower().map(bool_mapping)\<close>, one element.\<close>

definition encode_bool_value :: "cell \<Rightarrow> cell" where
  "encode_bool_value v = map_value bool_mapping (lower (str v))"

text \<open>The body of the loop over \<^verbatim>\<open>self.bool_columns\<close>.\<close>

definition encode_bool_column :: "encoding_maps \<times> dataframe \<Rightarrow> string \<Rightarrow> encoding_maps \<times> dataframe" where
  "encode_bool_column st col =
     (case st of (em, ddf) \<Rightarrow>
        if col \<in> set (columns ddf)
        then (AList.update col bool_mapping em,
              setitem ddf (encoded_name col) (map encode_bool_value (series ddf col)))
        else (em, ddf))"

text \<open>
  \<^verbatim>\<open>ddf[col].unique().compute()\<close>: the distinct values of the column. Their order is not
  used: the caller sorts their stringifications.
\<close>

definition unique :: "cell list \<Rightarrow> cell list" where
  "unique vs = remdups vs"

text \<open>
  \<^verbatim>\<open>{str(val): idx for idx, val in enumerate(sorted(str(v) for v in unique_values))}\<close>.
  Each \<^verbatim>\<open>val\<close> is already a string, so the key \<^verbatim>\<open>str(val)\<close> is \<^verbatim>\<open>val\<close>; a key that occurs
  again keeps its place in the dict and takes the later index.
\<close>

definition build_mapping :: "cell list \<Rightarrow> mapping" where
  "build_mapping unique_values =
     foldl (\<lambda>d (idx, val). AList.update val (int idx) d) []
       (List.enumerate 0 (sort (map str unique_values)))"

text \<open>The body of the loop over \<^verbatim>\<open>self.categorical_columns\<close>.\<close>

definition encode_cat_column :: "encoding_maps \<times> dataframe \<Rightarrow> string \<Rightarrow> encoding_maps \<times> dataframe" where
  "encode_cat_column st col =
     (case st of (em, ddf) \<Rightarrow>
        if col \<in> set (columns ddf)
        then (let unique_values = unique (series ddf col);
                  mapping = build_mapping unique_values
              in (AList.update col mapping em,
                  setitem ddf (encoded_name col) (map (\<lambda>v. map_value mapping (str v)) (series ddf col))))
        else (em, ddf))"

text \<open>
  The result of one call: the updated \<^verbatim>\<open>self.encoding_maps\<close>, the returned data frame, and
  the content of \<^verbatim>\<open>category_encodings.pkl\<close> when it was written. \<open>dumps\<close> is
  \<^verbatim>\<open>pickle.dump\<close>; \<open>can_write\<close> tells whether the file could be opened and written (a
  failure is caught and only printed as a warning). The text report
  \<^verbatim>\<open>category_mappings.txt\<close> is not modelled.
\<close>

definition encode_categorical_columns ::
    "(encoding_maps \<Rightarrow> 'b) \<Rightarrow> bool \<Rightarrow> encoding_maps \<Rightarrow> dataframe \<Rightarrow> encoding_maps \<times> dataframe \<times> 'b option" where
  "encode_categorical_columns dumps can_write encoding_maps ddf =
     (case foldl encode_cat_column (foldl encode_bool_column (encoding_maps, ddf) bool_columns)
             categorical_columns of
        (em, out) \<Rightarrow> (em, out, if can_write then Some (dumps em) else None))"

section \<open>DataProcessor.process\_data\<close>

text \<open>
  The value side of a filter entry: \<^verbatim>\<open>values = [values] if not isinstance(values, list) else values\<close>.
\<close>

datatype filter_values = Many "cell list" | One cell

fun as_list :: "filter_values \<Rightarrow> cell list" where
  "as_list (Many vs) = vs"
| "as_list (One v) = [v]"

text \<open>\<^verbatim>\<open>series.isin(vals)\<close>, as a boolean mask.\<close>

definition isin :: "cell list \<Rightarrow> cell list \<Rightarrow> bool list" where
  "isin vs vals = map (\<lambda>v. v \<in> set vals) vs"

text \<open>\<^verbatim>\<open>needed_columns = [col for col in all_columns if col not in exclude_columns]\<close>\<close>

definition needed_columns :: "string list \<Rightarrow> string list \<Rightarrow> string list" where
  "needed_columns all_columns exclude_columns = filter (\<lambda>col. col \<notin> set exclude_columns) all_columns"

text \<open>
  The body of the loop over \<^verbatim>\<open>train_filters.items()\<close>: a filter whose column is not in
  the data frame is passed over.
\<close>

definition apply_train_filter :: "dataframe \<Rightarrow> string \<times> filter_values \<Rightarrow> dataframe" where
  "apply_train_filter ddf f =
     (case f of (column, vals) \<Rightarrow>
        if column \<in> set (columns ddf)
        then getitem_mask ddf (isin (series ddf column) (as_list vals))
        else ddf)"

text \<open>The loop; an empty or absent \<^verbatim>\<open>train_filters\<close> leaves the data frame as it is.\<close>

definition apply_train_filters :: "(string \<times> filter_values) list \<Rightarrow> dataframe \<Rightarrow> dataframe" where
  "apply_train_filters train_filters ddf = foldl apply_train_filter ddf train_filters"

definition an_status :: string where
  "an_status = ''AN_PROGNOSE_STATUS''"

definition ab_status :: string where
  "ab_status = ''AB_PROGNOSE_STATUS''"

text \<open>\<^verbatim>\<open>(ddf["AN_PROGNOSE_STATUS"] == "REAL") & (ddf["AB_PROGNOSE_STATUS"] == "REAL")\<close>\<close>

definition real_mask :: "dataframe \<Rightarrow> bool list" where
  "real_mask ddf =
     map2 (\<lambda>a b. a \<and> b) (map (\<lambda>v. v = Str ''REAL'') (series ddf an_status))
       (map (\<lambda>v. v = Str ''REAL'') (series ddf ab_status))"

text \<open>The block under \<^verbatim>\<open>Filtering for REAL status...\<close>: the row filter, then the drop.\<close>

definition filter_real_status :: "dataframe \<Rightarrow> dataframe" where
  "filter_real_status ddf =
     (if an_status \<in> set (columns ddf) \<and> ab_status \<in> set (columns ddf)
      then drop_columns (getitem_mask ddf (real_mask ddf)) [an_status, ab_status]
      else ddf)"

text \<open>
  The two blocks under \<^verbatim>\<open>=== Applying Filters ===\<close>, in the order of the source: the
  caller's filters, then the status filter with its drop.
\<close>

definition filter_stage :: "(string \<times> filter_values) list \<Rightarrow> dataframe \<Rightarrow> dataframe" where
  "filter_stage train_filters ddf = filter_real_status (apply_train_filters train_filters ddf)"


text \<open>
  The calls into pandas and dask whose results a data frame holds afterwards. \<open>to_datetime\<close>
  is \<^verbatim>\<open>dd.to_datetime(series, format='mixed', dayfirst=True)\<close> on a whole column, \<open>None\<close>
  when it raises; \<open>total_seconds\<close> is one element of \<^verbatim>\<open>(a - b).dt.total_seconds()\<close>; the
  six accessors are \<^verbatim>\<open>.dt.day\<close> to \<^verbatim>\<open>.dt.minute\<close>.
\<close>

record datetime_lib =
  to_datetime :: "cell list \<Rightarrow> cell list option"
  total_seconds :: "cell \<Rightarrow> cell \<Rightarrow> cell"
  dt_day :: "cell \<Rightarrow> cell"
  dt_month :: "cell \<Rightarrow> cell"
  dt_year :: "cell \<Rightarrow> cell"
  dt_dayofweek :: "cell \<Rightarrow> cell"
  dt_hour :: "cell \<Rightarrow> cell"
  dt_minute :: "cell \<Rightarrow> cell"

definition timestamp_pairs :: "(string \<times> string \<times> string) list" where
  "timestamp_pairs =
     [(''ANKUNFTSZEIT'', ''AN_PROGNOSE'', ''ARRIVAL_TIME_DIFF_SECONDS''),
      (''ABFAHRTSZEIT'', ''AB_PROGNOSE'', ''DEPARTURE_TIME_DIFF_SECONDS'')]"

text \<open>The six keyword arguments of \<^verbatim>\<open>ddf.assign\<close>, in their order.\<close>

definition components :: "datetime_lib \<Rightarrow> (string \<times> (cell \<Rightarrow> cell)) list" where
  "components lib =
     [(''_DAY'', dt_day lib), (''_MONTH'', dt_month lib), (''_YEAR'', dt_year lib),
      (''_DAY_OF_WEEK'', dt_dayofweek lib), (''_HOUR'', dt_hour lib), (''_MINUTE'', dt_minute lib)]"

text \<open>
  \<^verbatim>\<open>ddf.assign(**{f'{col}_DAY': ddf[col].dt.day, ...})\<close>: every new column is computed from
  the column \<open>col\<close> of the data frame before the call.
\<close>

definition extract_components :: "datetime_lib \<Rightarrow> dataframe \<Rightarrow> string \<Rightarrow> dataframe" where
  "extract_components lib ddf col =
     foldl (\<lambda>d (suffix, part). setitem d (col @ suffix) (map part (series ddf col))) ddf
       (components lib)"

text \<open>
  The body of the loop over \<^verbatim>\<open>timestamp_pairs\<close>. An exception of \<open>to_datetime\<close> leaves the
  loop and the function: \<open>None\<close>.
\<close>

definition process_pair :: "datetime_lib \<Rightarrow> dataframe \<Rightarrow> string \<times> string \<times> string \<Rightarrow> dataframe option" where
  "process_pair lib ddf pair =
     (case pair of (actual_col, pred_col, diff_col) \<Rightarrow>
        if actual_col \<in> set (columns ddf) \<and> pred_col \<in> set (columns ddf)
        then (case to_datetime lib (series ddf actual_col) of
                None \<Rightarrow> None
              | Some actual \<Rightarrow>
                  let ddf1 = setitem ddf actual_col actual in
                  (case to_datetime lib (series ddf1 pred_col) of
                     None \<Rightarrow> None
                   | Some pred \<Rightarrow>
                       let ddf2 = setitem ddf1 pred_col pred;
                           ddf3 = setitem ddf2 diff_col
                                    (map2 (total_seconds lib) (series ddf2 actual_col) (series ddf2 pred_col));
                           ddf4 = foldl (extract_components lib) ddf3 [actual_col, pred_col]
                       in Some (drop_columns ddf4 [actual_col, pred_col])))
        else Some ddf)"

fun process_pairs :: "datetime_lib \<Rightarrow> dataframe \<Rightarrow> (string \<times> string \<times> string) list \<Rightarrow> dataframe option" where
  "process_pairs lib ddf [] = Some ddf"
| "process_pairs lib ddf (pair # pairs) =
     (case process_pair lib ddf pair of None \<Rightarrow> None | Some ddf' \<Rightarrow> process_pairs lib ddf' pairs)"

text \<open>
  The block after the encoder: \<^verbatim>\<open>columns_to_drop\<close> collects the configured columns that are
  in the data frame, and they are dropped when there are any.
\<close>

definition drop_originals :: "dataframe \<Rightarrow> dataframe" where
  "drop_originals ddf =
     (let columns_to_drop = filter (\<lambda>col. col \<in> set (columns ddf)) (bool_columns @ categorical_columns)
      in if columns_to_drop \<noteq> [] then drop_columns ddf columns_to_drop else ddf)"

text \<open>
  \<^verbatim>\<open>total_size = sum(os.path.getsize(f) for f in data_files) / (1024**3)\<close> and
  \<^verbatim>\<open>n_partitions = max(1, int(total_size * 2))\<close>. The float quotient is modelled by the real
  one (a sum of sizes below \<open>2^53\<close> bytes divides by a power of two without rounding), and
  \<^verbatim>\<open>int\<close> of a non-negative float is its floor.
\<close>

definition total_size :: "nat list \<Rightarrow> real" where
  "total_size sizes = real (sum_list sizes) / 1024 ^ 3"

definition n_partitions :: "real \<Rightarrow> int" where
  "n_partitions size_gb = max 1 \<lfloor>size_gb * 2\<rfloor>"

text \<open>
  What the run reads and what may fail in it: the sizes of the \<^verbatim>\<open>.csv\<close> files of
  \<^verbatim>\<open>train_folder\<close>, the header of the first file split at the delimiter, \<^verbatim>\<open>dd.read_csv\<close> for
  a list of columns (\<open>None\<close> when it raises), \<^verbatim>\<open>pickle.dump\<close>, whether the encodings file can
  be written, and whether \<^verbatim>\<open>to_parquet\<close> succeeds for a data frame and a partition count.
\<close>

record 'b environment =
  csv_sizes :: "nat list"
  all_columns :: "string list"
  read_csv :: "string list \<Rightarrow> dataframe option"
  pickle_dump :: "encoding_maps \<Rightarrow> 'b"
  pickle_writable :: bool
  to_parquet :: "dataframe \<Rightarrow> int \<Rightarrow> bool"

text \<open>
  What a successful run leaves: the returned path, the data frame handed to \<^verbatim>\<open>to_parquet\<close>
  with its partition count, \<^verbatim>\<open>self.encoding_maps\<close> and the content of the encodings file.
\<close>

record 'b outcome =
  output_path :: string
  written :: dataframe
  npartitions :: int
  encodings :: encoding_maps
  encodings_file :: "'b option"

text \<open>
  \<^verbatim>\<open>process_data\<close>. Every exception inside it is caught and makes it return \<^verbatim>\<open>None\<close>: no
  \<^verbatim>\<open>.csv\<close> file, a failing \<^verbatim>\<open>read_csv\<close>, \<^verbatim>\<open>to_datetime\<close> or \<^verbatim>\<open>to_parquet\<close>. The validation
  after the write only prints and is not modelled.
\<close>

definition process_data ::
    "datetime_lib \<Rightarrow> 'b environment \<Rightarrow> encoding_maps \<Rightarrow> (string \<times> filter_values) list \<Rightarrow> string \<Rightarrow>
     string list \<Rightarrow> 'b outcome option" where
  "process_data lib env encoding_maps train_filters output_file_path exclude_columns =
     (if csv_sizes env = [] then None
      else case read_csv env (needed_columns (all_columns env) exclude_columns) of
        None \<Rightarrow> None
      | Some ddf \<Rightarrow>
          (case process_pairs lib (filter_stage train_filters ddf) timestamp_pairs of
             None \<Rightarrow> None
           | Some ddf_t \<Rightarrow>
               (case encode_categorical_columns (pickle_dump env) (pickle_writable env) encoding_maps ddf_t of
                  (em, ddf_e, pkl) \<Rightarrow>
                    let ddf_f = drop_originals ddf_e;
                        n = n_partitions (total_size (csv_sizes env))
                    in if to_parquet env ddf_f n
                       then Some \<lparr>output_path = output_file_path, written = ddf_f, npartitions = n,
                                   encodings = em, encodings_file = pkl\<rparr>
                       else None)))"

section \<open>data\_processing.py\<close>

text \<open>
  \<^verbatim>\<open>_apply_filters\<close>: the loop over \<^verbatim>\<open>filters.items()\<close>, which returns \<^verbatim>\<open>None\<close> at the first
  column that is not in the data.
\<close>

fun apply_custom_filters :: "dataframe \<Rightarrow> (string \<times> filter_values) list \<Rightarrow> dataframe option" where
  "apply_custom_filters data [] = Some data"
| "apply_custom_filters data ((column, vals) # filters) =
     (if column \<in> set (columns data)
      then apply_custom_filters (getitem_mask data (isin (series data column) (as_list vals))) filters
      else None)"

text \<open>
  \<^verbatim>\<open>_apply_filters\<close>: the status filter first, where a missing status column raises a
  \<^verbatim>\<open>KeyError\<close> that is caught (\<^verbatim>\<open>None\<close>); then the loop. No column is dropped here.
\<close>

definition apply_filters :: "dataframe \<Rightarrow> (string \<times> filter_values) list \<Rightarrow> dataframe option" where
  "apply_filters data filters =
     (if an_status \<in> set (columns data) \<and> ab_status \<in> set (columns data)
      then apply_custom_filters (getitem_mask data (real_mask data)) filters
      else None)"

text \<open>\<^verbatim>\<open>_exclude_columns\<close>: \<^verbatim>\<open>data.drop(columns=exclude_columns, errors='ignore')\<close>.\<close>

definition dp_exclude_columns :: "dataframe \<Rightarrow> string list \<Rightarrow> dataframe option" where
  "dp_exclude_columns data excluded = Some (drop_columns data excluded)"

text \<open>
  \<^verbatim>\<open>_preprocess_data\<close>: \<^verbatim>\<open>fillna(np.nan)\<close> and \<^verbatim>\<open>infer_objects\<close> leave every cell of this
  model as it is.
\<close>

definition preprocess_data :: "dataframe \<Rightarrow> dataframe option" where
  "preprocess_data data = Some data"

text \<open>
  \<^verbatim>\<open>calculate_time_difference\<close>, local to \<^verbatim>\<open>preprocess_and_save_data\<close>: a missing column or a
  failing \<open>to_datetime\<close> is caught and gives \<^verbatim>\<open>None\<close>.
\<close>

definition calculate_time_difference ::
    "datetime_lib \<Rightarrow> dataframe \<Rightarrow> string \<Rightarrow> string \<Rightarrow> string \<Rightarrow> dataframe option" where
  "calculate_time_difference lib data col1 col2 new_col_name =
     (if col1 \<notin> set (columns data) then None
      else case to_datetime lib (series data col1) of
        None \<Rightarrow> None
      | Some t1 \<Rightarrow>
          let data1 = setitem data col1 t1 in
          if col2 \<notin> set (columns data1) then None
          else (case to_datetime lib (series data1 col2) of
                  None \<Rightarrow> None
                | Some t2 \<Rightarrow>
                    let data2 = setitem data1 col2 t2 in
                    Some (setitem data2 new_col_name
                            (map2 (total_seconds lib) (series data2 col1) (series data2 col2)))))"

text \<open>
  The further calls of \<^verbatim>\<open>data_processing.py\<close> into dask, pandas and pyarrow:
  \<^verbatim>\<open>data.map_partitions\<close>, \<^verbatim>\<open>.astype('category').cat.codes\<close> on a column, \<^verbatim>\<open>data.dtypes\<close> with
  the three dtype tests of \<^verbatim>\<open>pd.api.types\<close>, and whether \<^verbatim>\<open>data.to_parquet\<close> succeeds for a
  data frame and a schema. The type \<open>'d\<close> is that of the dtypes.
\<close>

datatype pa_type = pa_bool | pa_int64 | pa_float64 | pa_string

record 'd frame_lib =
  map_partitions :: "(dataframe \<Rightarrow> dataframe) \<Rightarrow> dataframe \<Rightarrow> dataframe"
  cat_codes :: "cell list \<Rightarrow> cell list"
  dtypes :: "dataframe \<Rightarrow> (string \<times> 'd) list"
  is_bool_dtype :: "'d \<Rightarrow> bool"
  is_integer_dtype :: "'d \<Rightarrow> bool"
  is_float_dtype :: "'d \<Rightarrow> bool"
  to_parquet_with :: "dataframe \<Rightarrow> (string \<times> pa_type) list \<Rightarrow> bool"

text \<open>\<^verbatim>\<open>encode_partition\<close>, local to \<^verbatim>\<open>_encode_categorical_columns\<close>.\<close>

definition encode_partition :: "'d frame_lib \<Rightarrow> dataframe \<Rightarrow> dataframe" where
  "encode_partition flib df =
     foldl (\<lambda>d column. setitem d column (cat_codes flib (series d column))) df (columns df)"

definition dp_encode_categorical_columns :: "'d frame_lib \<Rightarrow> dataframe \<Rightarrow> dataframe option" where
  "dp_encode_categorical_columns flib data = Some (map_partitions flib (encode_partition flib) data)"

text \<open>The \<^verbatim>\<open>if/elif/else\<close> over the dtype of one column in \<^verbatim>\<open>save_processed_data\<close>.\<close>

definition arrow_type :: "'d frame_lib \<Rightarrow> 'd \<Rightarrow> pa_type" where
  "arrow_type flib dtype =
     (if is_bool_dtype flib dtype then pa_bool
      else if is_integer_dtype flib dtype then pa_int64
      else if is_float_dtype flib dtype then pa_float64
      else pa_string)"

text \<open>\<^verbatim>\<open>output_file_path.replace('.csv', '.parquet')\<close>\<close>

function replace_csv :: "string \<Rightarrow> string" where
  "replace_csv s =
     (if take 4 s = ''.csv'' then ''.parquet'' @ replace_csv (List.drop 4 s)
      else (case s of [] \<Rightarrow> [] | c # rest \<Rightarrow> c # replace_csv rest))"
  by pat_completeness auto
termination
proof (relation "measure length")
  fix s :: string
  assume "take 4 s = ''.csv''"
  then have "s \<noteq> []" by auto
  then show "(List.drop 4 s, s) \<in> measure length" by simp
qed auto

declare replace_csv.simps [simp del]

record saved =
  saved_path :: string
  saved_frame :: dataframe
  saved_npartitions :: int
  saved_schema :: "(string \<times> pa_type) list"

text \<open>
  \<^verbatim>\<open>save_processed_data\<close>: \<^verbatim>\<open>data.repartition(npartitions=20)\<close>, the schema built from
  \<^verbatim>\<open>data.dtypes\<close>, the new path, the write; an exception gives \<^verbatim>\<open>None\<close>.
\<close>

definition save_processed_data :: "'d frame_lib \<Rightarrow> dataframe \<Rightarrow> string \<Rightarrow> saved option" where
  "save_processed_data flib data output_file_path =
     (let schema_fields = map (\<lambda>(col, dtype). (col, arrow_type flib dtype)) (dtypes flib data);
          path = replace_csv output_file_path
      in if to_parquet_with flib data schema_fields
         then Some \<lparr>saved_path = path, saved_frame = data, saved_npartitions = 20,
                     saved_schema = schema_fields\<rparr>
         else None)"

definition preprocess_and_save_data ::
    "datetime_lib \<Rightarrow> 'd frame_lib \<Rightarrow> dataframe \<Rightarrow> (string \<times> filter_values) list \<Rightarrow> string list \<Rightarrow>
     string \<Rightarrow> saved option" where
  "preprocess_and_save_data lib flib data filters excluded output_file_path =
     (case apply_filters data filters of
        None \<Rightarrow> None
      | Some d1 \<Rightarrow>
     (case dp_exclude_columns d1 excluded of
        None \<Rightarrow> None
      | Some d2 \<Rightarrow>
     (case preprocess_data d2 of
        None \<Rightarrow> None
      | Some d3 \<Rightarrow>
     (case calculate_time_difference lib d3 ''ANKUNFTSZEIT'' ''AN_PROGNOSE'' ''ARRIVAL_TIME_DIFF_SECONDS'' of
        None \<Rightarrow> None
      | Some d4 \<Rightarrow>
     (case calculate_time_difference lib d4 ''ABFAHRTSZEIT'' ''AB_PROGNOSE'' ''DEPARTURE_TIME_DIFF_SECONDS'' of
        None \<Rightarrow> None
      | Some d5 \<Rightarrow>
     (case dp_encode_categorical_columns flib d5 of
        None \<Rightarrow> None
      | Some d6 \<Rightarrow> save_processed_data flib d6 output_file_path))))))"

text \<open>
  \<^verbatim>\<open>load_and_preprocess_data\<close>; \<open>loaded\<close> is the result of \<^verbatim>\<open>_load_data\<close> on the \<^verbatim>\<open>.csv\<close> files
  of the folder, \<^verbatim>\<open>None\<close> when \<^verbatim>\<open>dd.read_csv\<close> raised.
\<close>

definition load_and_preprocess_data ::
    "datetime_lib \<Rightarrow> 'd frame_lib \<Rightarrow> dataframe option \<Rightarrow> (string \<times> filter_values) list \<Rightarrow> string \<Rightarrow>
     string list \<Rightarrow> saved option" where
  "load_and_preprocess_data lib flib loaded filters output_file_path excluded =
     (case loaded of
        None \<Rightarrow> None
      | Some data \<Rightarrow> preprocess_and_save_data lib flib data filters excluded output_file_path)"


section \<open>Auxiliary definitions\<close>

text \<open>The two loop bodies of the encoder are instances of one step.\<close>

definition encode_with ::
    "(cell list \<Rightarrow> mapping) \<Rightarrow> (cell \<Rightarrow> string) \<Rightarrow> encoding_maps \<times> dataframe \<Rightarrow> string \<Rightarrow> encoding_maps \<times> dataframe" where
  "encode_with mk key st col =
     (case st of (em, ddf) \<Rightarrow>
        if col \<in> set (columns ddf)
        then (AList.update col (mk (series ddf col)) em,
              setitem ddf (encoded_name col) (map (\<lambda>v. map_value (mk (series ddf col)) (key v)) (series ddf col)))
        else (em, ddf))"

text \<open>What a loop of such steps over the columns \<open>cs\<close> establishes.\<close>

definition loop_post ::
    "(cell list \<Rightarrow> mapping) \<Rightarrow> (cell \<Rightarrow> string) \<Rightarrow> string list \<Rightarrow> encoding_maps \<Rightarrow> dataframe \<Rightarrow> encoding_maps \<Rightarrow> dataframe \<Rightarrow> bool" where
  "loop_post mk key cs em ddf em' out \<longleftrightarrow>
     (\<forall>c. c \<notin> encoded_name ` {x \<in> set cs. x \<in> set (columns ddf)} \<longrightarrow>
          series out c = series ddf c \<and> (c \<in> set (columns out) \<longleftrightarrow> c \<in> set (columns ddf))) \<and>
     (\<forall>c. c \<in> set cs \<and> c \<in> set (columns ddf) \<longrightarrow>
          series out (encoded_name c) = map (\<lambda>v. map_value (mk (series ddf c)) (key v)) (series ddf c) \<and>
          encoded_name c \<in> set (columns out)) \<and>
     (\<forall>c. map_of em' c = (if c \<in> set cs \<and> c \<in> set (columns ddf) then Some (mk (series ddf c)) else map_of em c)) \<and>
     (\<exists>new. columns out = columns ddf @ new \<and> distinct new \<and>
          set new = encoded_name ` {x \<in> set cs. x \<in> set (columns ddf)} - set (columns ddf))"

definition present :: "string list \<Rightarrow> dataframe \<Rightarrow> string set" where
  "present cs ddf = {x \<in> set cs. x \<in> set (columns ddf)}"


text \<open>
  The names of the raw columns that some stage of \<^verbatim>\<open>process_data\<close> drops, and the relation
  between the column list before and after a stage: columns are kept in their order or
  dropped, only raw columns are dropped, and new columns are appended, none of them with the
  name of a raw column.
\<close>

definition raw_names :: "string list" where
  "raw_names =
     [an_status, ab_status] @ concat (map (\<lambda>(a, p, d). [a, p]) timestamp_pairs) @ bool_columns
       @ categorical_columns"

definition evolves :: "string list \<Rightarrow> string list \<Rightarrow> bool" where
  "evolves cs cs' \<longleftrightarrow>
     (\<exists>P new. cs' = filter P cs @ new \<and> set new \<inter> set raw_names = {} \<and> set new \<inter> set cs = {}
        \<and> (\<forall>c\<in>set cs. \<not> P c \<longrightarrow> c \<in> set raw_names))"

section \<open>Example inputs\<close>

text \<open>
  Small data frames, stand-ins for the library calls and an environment, on which the
  statements below are evaluated: \<open>frame_w\<close> and \<open>frame_nan\<close> for the encoder, \<open>frame_s\<close> for the
  filters, \<open>frame_raw\<close> as a loaded data set that lacks \<^verbatim>\<open>AN_PROGNOSE\<close>, and
  \<open>frame_final\<close>, which is what \<^verbatim>\<open>process_data\<close> writes for it.
\<close>

definition frame_w :: dataframe where
  "frame_w = [(''LINIEN_TEXT'', [Str ''IC2'', Str ''IC1'', NaN, Str ''IC2'']),
              (''DURCHFAHRT_TF'', [Str ''TRUE'', Str ''false'', NaN, Num 1])]"



definition lib_id :: datetime_lib where
  "lib_id = \<lparr>to_datetime = (\<lambda>vs. Some vs), total_seconds = (\<lambda>a b. NaN),
             dt_day = (\<lambda>v. v), dt_month = (\<lambda>v. v), dt_year = (\<lambda>v. v),
             dt_dayofweek = (\<lambda>v. v), dt_hour = (\<lambda>v. v), dt_minute = (\<lambda>v. v)\<rparr>"

definition frame_raw :: dataframe where
  "frame_raw =
     [(''LINIEN_TEXT'', [Str ''IC2'', Str ''IC3'']),
      (''AN_PROGNOSE_STATUS'', [Str ''REAL'', Str ''REAL'']),
      (''AB_PROGNOSE_STATUS'', [Str ''REAL'', Str ''REAL'']),
      (''ANKUNFTSZEIT'', [Str ''01.01.2024 10:05'', Str ''01.01.2024 11:00'']),
      (''ABFAHRTSZEIT'', [Str ''01.01.2024 10:07'', Str ''01.01.2024 11:02'']),
      (''AB_PROGNOSE'', [Str ''01.01.2024 10:08:10'', Str ''01.01.2024 11:02:30''])]"

definition env_ex :: "encoding_maps environment" where
  "env_ex = \<lparr>csv_sizes = [5368709120], all_columns = map fst frame_raw,
              read_csv = (\<lambda>cols. Some (filter (\<lambda>(c, vs). c \<in> set cols) frame_raw)),
              pickle_dump = (\<lambda>em. em), pickle_writable = True, to_parquet = (\<lambda>d n. True)\<rparr>"

definition frame_final :: dataframe where
  "frame_final =
     [(''ANKUNFTSZEIT'', [Str ''01.01.2024 10:05'', Str ''01.01.2024 11:00'']),
      (''DEPARTURE_TIME_DIFF_SECONDS'', [NaN, NaN]),
      (''ABFAHRTSZEIT_DAY'', [Str ''01.01.2024 10:07'', Str ''01.01.2024 11:02'']),
      (''ABFAHRTSZEIT_MONTH'', [Str ''01.01.2024 10:07'', Str ''01.01.2024 11:02'']),
      (''ABFAHRTSZEIT_YEAR'', [Str ''01.01.2024 10:07'', Str ''01.01.2024 11:02'']),
      (''ABFAHRTSZEIT_DAY_OF_WEEK'', [Str ''01.01.2024 10:07'', Str ''01.01.2024 11:02'']),
      (''ABFAHRTSZEIT_HOUR'', [Str ''01.01.2024 10:07'', Str ''01.01.2024 11:02'']),
      (''ABFAHRTSZEIT_MINUTE'', [Str ''01.01.2024 10:07'', Str ''01.01.2024 11:02'']),
      (''AB_PROGNOSE_DAY'', [Str ''01.01.2024 10:08:10'', Str ''01.01.2024 11:02:30'']),
      (''AB_PROGNOSE_MONTH'', [Str ''01.01.2024 10:08:10'', Str ''01.01.2024 11:02:30'']),
      (''AB_PROGNOSE_YEAR'', [Str ''01.01.2024 10:08:10'', Str ''01.01.2024 11:02:30'']),
      (''AB_PROGNOSE_DAY_OF_WEEK'', [Str ''01.01.2024 10:08:10'', Str ''01.01.2024 11:02:30'']),
      (''AB_PROGNOSE_HOUR'', [Str ''01.01.2024 10:08:10'', Str ''01.01.2024 11:02:30'']),
      (''AB_PROGNOSE_MINUTE'', [Str ''01.01.2024 10:08:10'', Str ''01.01.2024 11:02:30'']),
      (''LINIEN_TEXT_encoded'', [Num 0, Num 1])]"


definition flib_ex :: "unit frame_lib" where
  "flib_ex = \<lparr>map_partitions = (\<lambda>f d. f d), cat_codes = (\<lambda>vs. map (\<lambda>v. Num 0) vs),
               dtypes = (\<lambda>d. map (\<lambda>(c, vs). (c, ())) d),
               is_bool_dtype = (\<lambda>t. False), is_integer_dtype = (\<lambda>t. True),
               is_float_dtype = (\<lambda>t. False), to_parquet_with = (\<lambda>d s. True)\<rparr>"

section \<open>The encoder\<close>





lemma encode_bool_column_with:
  "encode_bool_column = encode_with (\<lambda>vs. bool_mapping) (\<lambda>v. lower (str v))"
proof -
  have "encode_bool_value = (\<lambda>v. map_value bool_mapping (lower (str v)))"
    by (simp add: fun_eq_iff encode_bool_value_def)
  then show ?thesis
    by (intro ext) (simp add: encode_bool_column_def encode_with_def split: prod.splits)
qed

lemma encode_cat_column_with:
  "encode_cat_column = encode_with (\<lambda>vs. build_mapping (unique vs)) str"
  by (intro ext) (simp add: encode_cat_column_def encode_with_def Let_def split: prod.splits)

lemma columns_setitem:
  "columns (setitem ddf n vs) = (if n \<in> set (columns ddf) then columns ddf else columns ddf @ [n])"
  by (simp add: columns_def setitem_def update_keys)

lemma series_setitem:
  "series (setitem ddf n vs) c = (if c = n then vs else series ddf c)"
  by (simp add: series_def setitem_def update_conv')

lemma encoded_name_inj [simp]: "encoded_name a = encoded_name b \<longleftrightarrow> a = b"
  by (simp add: encoded_name_def)

lemma encode_loop:
  assumes "\<And>c c'. c \<in> set cs \<Longrightarrow> c' \<in> set cs \<Longrightarrow> c \<noteq> encoded_name c'"
    and "foldl (encode_with mk key) (em, ddf) cs = (em', out)"
  shows "loop_post mk key cs em ddf em' out"
  using assms
proof (induction cs arbitrary: em' out rule: rev_induct)
  case Nil
  then show ?case by (simp add: loop_post_def)
next
  case (snoc x xs)
  obtain em1 out1 where f: "foldl (encode_with mk key) (em, ddf) xs = (em1, out1)"
    by (cases "foldl (encode_with mk key) (em, ddf) xs")
  have nc: "\<And>c c'. c \<in> set xs \<Longrightarrow> c' \<in> set xs \<Longrightarrow> c \<noteq> encoded_name c'"
    using snoc.prems(1) by simp
  have ih: "loop_post mk key xs em ddf em1 out1"
    using snoc.IH [OF nc f] .
  have xfresh: "x \<notin> encoded_name ` {y \<in> set xs. y \<in> set (columns ddf)}"
    using snoc.prems(1) [of x] by auto
  from ih xfresh have sx: "series out1 x = series ddf x"
    and px: "x \<in> set (columns out1) \<longleftrightarrow> x \<in> set (columns ddf)"
    by (auto simp: loop_post_def)
  have step: "encode_with mk key (em1, out1) x = (em', out)"
    using snoc.prems(2) by (simp add: f)
  let ?S = "{y \<in> set xs. y \<in> set (columns ddf)}"
  show ?case
  proof (cases "x \<in> set (columns ddf)")
    case False
    with step px have eq: "em' = em1" "out = out1" by (auto simp: encode_with_def)
    have S: "{y \<in> set (xs @ [x]). y \<in> set (columns ddf)} = ?S"
      using False by auto
    have C: "\<And>c. (c \<in> set (xs @ [x]) \<and> c \<in> set (columns ddf)) = (c \<in> set xs \<and> c \<in> set (columns ddf))"
      using False by auto
    show ?thesis
      unfolding loop_post_def S C eq using ih unfolding loop_post_def by simp
  next
    case True
    let ?m = "mk (series ddf x)"
    let ?vs = "map (\<lambda>v. map_value ?m (key v)) (series ddf x)"
    from step px True sx have em': "em' = AList.update x ?m em1"
      and out: "out = setitem out1 (encoded_name x) ?vs"
      by (auto simp: encode_with_def)
    have S: "{y \<in> set (xs @ [x]). y \<in> set (columns ddf)} = insert x ?S"
      using True by auto
    have p1: "\<forall>c. c \<notin> encoded_name ` insert x ?S \<longrightarrow>
          series out c = series ddf c \<and> (c \<in> set (columns out) \<longleftrightarrow> c \<in> set (columns ddf))"
      using ih unfolding loop_post_def out by (auto simp: series_setitem columns_setitem)
    have p2: "\<forall>c. c \<in> set (xs @ [x]) \<and> c \<in> set (columns ddf) \<longrightarrow>
          series out (encoded_name c) = map (\<lambda>v. map_value (mk (series ddf c)) (key v)) (series ddf c) \<and>
          encoded_name c \<in> set (columns out)"
      using ih unfolding loop_post_def out by (auto simp: series_setitem columns_setitem)
    have p3: "\<forall>c. map_of em' c =
          (if c \<in> set (xs @ [x]) \<and> c \<in> set (columns ddf) then Some (mk (series ddf c)) else map_of em c)"
      using ih True unfolding loop_post_def em' by (auto simp: update_conv')
    from ih obtain new where new: "columns out1 = columns ddf @ new" "distinct new"
      "set new = encoded_name ` ?S - set (columns ddf)"
      unfolding loop_post_def by blast
    have p4: "\<exists>new. columns out = columns ddf @ new \<and> distinct new \<and>
          set new = encoded_name ` insert x ?S - set (columns ddf)"
    proof (cases "encoded_name x \<in> set (columns out1)")
      case True
      then have "columns out = columns ddf @ new" by (simp add: out columns_setitem new)
      moreover have "set new = encoded_name ` insert x ?S - set (columns ddf)"
        using True new by auto
      ultimately show ?thesis using new(2) by blast
    next
      case False
      then have "columns out = columns ddf @ (new @ [encoded_name x])"
        by (simp add: out columns_setitem new)
      moreover have "set (new @ [encoded_name x]) = encoded_name ` insert x ?S - set (columns ddf)"
        using False new by auto
      moreover have "distinct (new @ [encoded_name x])" using False new by auto
      ultimately show ?thesis by blast
    qed
    show ?thesis unfolding loop_post_def S using p1 p2 p3 p4 by blast
  qed
qed

lemma names_no_clash:
  "c \<in> set (bool_columns @ categorical_columns) \<Longrightarrow> c' \<in> set (bool_columns @ categorical_columns) \<Longrightarrow>
   c \<noteq> encoded_name c'"
  by (auto simp: bool_columns_def categorical_columns_def encoded_name_def)

lemma names_disjoint: "set bool_columns \<inter> set categorical_columns = {}"
  by (simp add: bool_columns_def categorical_columns_def)

lemma encoder_loops:
  assumes "encode_categorical_columns dumps cw em ddf = (em', out, art)"
  obtains em1 ddf1 where
    "loop_post (\<lambda>vs. bool_mapping) (\<lambda>v. lower (str v)) bool_columns em ddf em1 ddf1"
    "loop_post (\<lambda>vs. build_mapping (unique vs)) str categorical_columns em1 ddf1 em' out"
    "art = (if cw then Some (dumps em') else None)"
proof -
  obtain em1 ddf1 where b: "foldl encode_bool_column (em, ddf) bool_columns = (em1, ddf1)"
    by (cases "foldl encode_bool_column (em, ddf) bool_columns")
  obtain em2 ddf2 where c: "foldl encode_cat_column (em1, ddf1) categorical_columns = (em2, ddf2)"
    by (cases "foldl encode_cat_column (em1, ddf1) categorical_columns")
  from assms have r: "em' = em2" "out = ddf2" "art = (if cw then Some (dumps em') else None)"
    by (auto simp: encode_categorical_columns_def b c)
  have "loop_post (\<lambda>vs. bool_mapping) (\<lambda>v. lower (str v)) bool_columns em ddf em1 ddf1"
    using b names_no_clash by (intro encode_loop) (auto simp: encode_bool_column_with)
  moreover have "loop_post (\<lambda>vs. build_mapping (unique vs)) str categorical_columns em1 ddf1 em' out"
    using c r names_no_clash by (intro encode_loop) (auto simp: encode_cat_column_with)
  ultimately show ?thesis using r(3) that by blast
qed

lemma encoder_bool:
  assumes "encode_categorical_columns dumps cw em ddf = (em', out, art)"
    and "col \<in> set bool_columns" "col \<in> set (columns ddf)"
  shows "map_of em' col = Some bool_mapping"
    and "series out (encoded_name col) = map encode_bool_value (series ddf col)"
    and "encoded_name col \<in> set (columns out)"
proof -
  from assms(1) obtain em1 ddf1 where
    b: "loop_post (\<lambda>vs. bool_mapping) (\<lambda>v. lower (str v)) bool_columns em ddf em1 ddf1" and
    c: "loop_post (\<lambda>vs. build_mapping (unique vs)) str categorical_columns em1 ddf1 em' out"
    by (rule encoder_loops)
  have notcat: "col \<notin> set categorical_columns" using assms(2) names_disjoint by auto
  have e: "encoded_name col \<notin> encoded_name ` {x \<in> set categorical_columns. x \<in> set (columns ddf1)}"
    using notcat by auto
  from b assms have b1: "series ddf1 (encoded_name col) = map (\<lambda>v. map_value bool_mapping (lower (str v))) (series ddf col)"
    and b2: "encoded_name col \<in> set (columns ddf1)" and b3: "map_of em1 col = Some bool_mapping"
    by (auto simp: loop_post_def)
  from c e have c1: "series out (encoded_name col) = series ddf1 (encoded_name col)"
    and c2: "encoded_name col \<in> set (columns out) \<longleftrightarrow> encoded_name col \<in> set (columns ddf1)"
    unfolding loop_post_def by blast+
  from c notcat have c3: "map_of em' col = map_of em1 col" by (auto simp: loop_post_def)
  show "map_of em' col = Some bool_mapping" using c3 b3 by simp
  show "series out (encoded_name col) = map encode_bool_value (series ddf col)"
    using c1 b1 by (simp add: encode_bool_value_def)
  show "encoded_name col \<in> set (columns out)" using c2 b2 by simp
qed

lemma encoder_cat:
  assumes "encode_categorical_columns dumps cw em ddf = (em', out, art)"
    and "col \<in> set categorical_columns" "col \<in> set (columns ddf)"
  shows "map_of em' col = Some (build_mapping (unique (series ddf col)))"
    and "series out (encoded_name col) =
           map (\<lambda>v. map_value (build_mapping (unique (series ddf col))) (str v)) (series ddf col)"
    and "encoded_name col \<in> set (columns out)"
proof -
  from assms(1) obtain em1 ddf1 where
    b: "loop_post (\<lambda>vs. bool_mapping) (\<lambda>v. lower (str v)) bool_columns em ddf em1 ddf1" and
    c: "loop_post (\<lambda>vs. build_mapping (unique vs)) str categorical_columns em1 ddf1 em' out"
    by (rule encoder_loops)
  have e: "col \<notin> encoded_name ` {x \<in> set bool_columns. x \<in> set (columns ddf)}"
    using assms(2) names_no_clash [of col] by auto
  from b e have b1: "series ddf1 col = series ddf col"
    and b2: "col \<in> set (columns ddf1) \<longleftrightarrow> col \<in> set (columns ddf)"
    unfolding loop_post_def by blast+
  from c assms(2,3) b2 have
    c1: "series out (encoded_name col) =
           map (\<lambda>v. map_value (build_mapping (unique (series ddf1 col))) (str v)) (series ddf1 col)"
    and c2: "encoded_name col \<in> set (columns out)"
    and c3: "map_of em' col = Some (build_mapping (unique (series ddf1 col)))"
    by (auto simp: loop_post_def)
  show "map_of em' col = Some (build_mapping (unique (series ddf col)))" using c3 b1 by simp
  show "series out (encoded_name col) =
           map (\<lambda>v. map_value (build_mapping (unique (series ddf col))) (str v)) (series ddf col)"
    using c1 b1 by simp
  show "encoded_name col \<in> set (columns out)" by (rule c2)
qed

lemma encoder_absent:
  assumes "encode_categorical_columns dumps cw em ddf = (em', out, art)"
    and "col \<notin> present (bool_columns @ categorical_columns) ddf"
  shows "map_of em' col = map_of em col"
    and "series out (encoded_name col) = series ddf (encoded_name col)"
    and "encoded_name col \<in> set (columns out) \<longleftrightarrow> encoded_name col \<in> set (columns ddf)"
proof -
  from assms(1) obtain em1 ddf1 where
    b: "loop_post (\<lambda>vs. bool_mapping) (\<lambda>v. lower (str v)) bool_columns em ddf em1 ddf1" and
    c: "loop_post (\<lambda>vs. build_mapping (unique vs)) str categorical_columns em1 ddf1 em' out"
    by (rule encoder_loops)
  have pc: "\<And>x. x \<in> set categorical_columns \<Longrightarrow> x \<in> set (columns ddf1) \<longleftrightarrow> x \<in> set (columns ddf)"
  proof -
    fix x assume "x \<in> set categorical_columns"
    then have "x \<notin> encoded_name ` {y \<in> set bool_columns. y \<in> set (columns ddf)}"
      using names_no_clash [of x] by auto
    with b show "x \<in> set (columns ddf1) \<longleftrightarrow> x \<in> set (columns ddf)"
      unfolding loop_post_def by blast
  qed
  have nb: "\<not> (col \<in> set bool_columns \<and> col \<in> set (columns ddf))"
    and ncat: "\<not> (col \<in> set categorical_columns \<and> col \<in> set (columns ddf1))"
    using assms(2) pc by (auto simp: present_def)
  have eb: "encoded_name col \<notin> encoded_name ` {x \<in> set bool_columns. x \<in> set (columns ddf)}"
    using nb by auto
  have ec: "encoded_name col \<notin> encoded_name ` {x \<in> set categorical_columns. x \<in> set (columns ddf1)}"
    using ncat by auto
  from b nb have "map_of em1 col = map_of em col" by (auto simp: loop_post_def)
  moreover from c ncat have "map_of em' col = map_of em1 col" by (auto simp: loop_post_def)
  ultimately show "map_of em' col = map_of em col" by simp
  from b eb have b1: "series ddf1 (encoded_name col) = series ddf (encoded_name col)"
    and b2: "encoded_name col \<in> set (columns ddf1) \<longleftrightarrow> encoded_name col \<in> set (columns ddf)"
    unfolding loop_post_def by blast+
  from c ec have c1: "series out (encoded_name col) = series ddf1 (encoded_name col)"
    and c2: "encoded_name col \<in> set (columns out) \<longleftrightarrow> encoded_name col \<in> set (columns ddf1)"
    unfolding loop_post_def by blast+
  show "series out (encoded_name col) = series ddf (encoded_name col)" using b1 c1 by simp
  show "encoded_name col \<in> set (columns out) \<longleftrightarrow> encoded_name col \<in> set (columns ddf)"
    using b2 c2 by simp
qed

lemma lower_char_not_upper: "lower_char c \<noteq> CHR ''F''" "lower_char c \<noteq> CHR ''T''"
  by (auto simp: lower_char_def split: if_splits)

lemma lower_not_capitalised: "lower s \<noteq> ''False''" "lower s \<noteq> ''True''"
  using lower_char_not_upper by (cases s; auto simp: lower_def)+

lemma encode_bool_value_cases:
  "encode_bool_value v =
     (if lower (str v) = ''false'' then Num 0 else if lower (str v) = ''true'' then Num 1 else NaN)"
  using lower_not_capitalised [of "str v"]
  by (simp add: encode_bool_value_def map_value_def bool_mapping_def)

lemma encode_frame_w:
  "encode_categorical_columns id True initial_encoding_maps frame_w =
     ([(''DURCHFAHRT_TF'', bool_mapping), (''LINIEN_TEXT'', [(''IC1'', 0), (''IC2'', 1), (''nan'', 2)])],
      [(''LINIEN_TEXT'', [Str ''IC2'', Str ''IC1'', NaN, Str ''IC2'']),
       (''DURCHFAHRT_TF'', [Str ''TRUE'', Str ''false'', NaN, Num 1]),
       (''DURCHFAHRT_TF_encoded'', [Num 1, Num 0, NaN, NaN]),
       (''LINIEN_TEXT_encoded'', [Num 1, Num 0, Num 2, Num 1])],
      Some [(''DURCHFAHRT_TF'', bool_mapping), (''LINIEN_TEXT'', [(''IC1'', 0), (''IC2'', 1), (''nan'', 2)])])"
  by code_simp





lemma encoder_artifact:
  assumes "encode_categorical_columns dumps cw em ddf = (em', out, art)"
  shows "art = (if cw then Some (dumps em') else None)"
  using assms by (rule encoder_loops)

lemma encoder_keys_fresh:
  assumes "encode_categorical_columns dumps cw initial_encoding_maps ddf = (em', out, art)"
  shows "fst ` set em' = {c \<in> set (bool_columns @ categorical_columns). c \<in> set (columns ddf)}"
proof -
  have "c \<in> dom (map_of em') \<longleftrightarrow> c \<in> set (bool_columns @ categorical_columns) \<and> c \<in> set (columns ddf)" for c
  proof (cases "c \<in> present (bool_columns @ categorical_columns) ddf")
    case True
    then consider "c \<in> set bool_columns" "c \<in> set (columns ddf)"
      | "c \<in> set categorical_columns" "c \<in> set (columns ddf)"
      by (auto simp: present_def)
    then have "map_of em' c \<noteq> None"
    proof cases
      case 1
      then show ?thesis using encoder_bool(1) [OF assms] by simp
    next
      case 2
      then show ?thesis using encoder_cat(1) [OF assms] by simp
    qed
    with True show ?thesis by (auto simp: present_def)
  next
    case False
    then have "map_of em' c = None"
      using encoder_absent(1) [OF assms False] by (simp add: initial_encoding_maps_def)
    with False show ?thesis by (auto simp: present_def)
  qed
  then show ?thesis by (auto simp: dom_map_of_conv_image_fst [symmetric] simp del: set_append)
qed


section \<open>The filter stage\<close>

lemma select_Nil [simp]: "select [] vs = []" "select keep [] = []"
  by (simp_all add: select_def)

lemma select_Cons [simp]:
  "select (b # keep) (v # vs) = (if b then v # select keep vs else select keep vs)"
  by (simp add: select_def)





lemma columns_getitem_mask [simp]: "columns (getitem_mask ddf keep) = columns ddf"
  by (induction ddf) (auto simp: columns_def getitem_mask_def)


lemma columns_drop_columns [simp]:
  "columns (drop_columns ddf names) = filter (\<lambda>c. c \<notin> set names) (columns ddf)"
  by (induction ddf) (auto simp: columns_def drop_columns_def)

lemma series_drop_columns [simp]:
  "c \<notin> set names \<Longrightarrow> series (drop_columns ddf names) c = series ddf c"
  by (induction ddf) (auto simp: series_def drop_columns_def)








lemma columns_apply_train_filter [simp]: "columns (apply_train_filter ddf f) = columns ddf"
  by (cases f) (simp add: apply_train_filter_def)

lemma columns_apply_train_filters [simp]: "columns (apply_train_filters fs ddf) = columns ddf"
  unfolding apply_train_filters_def by (induction fs arbitrary: ddf) simp_all

lemma apply_train_filters_skip:
  assumes "column \<notin> set (columns ddf)"
  shows "apply_train_filters (fs1 @ (column, vals) # fs2) ddf = apply_train_filters (fs1 @ fs2) ddf"
proof -
  have "column \<notin> set (columns (apply_train_filters fs1 ddf))" using assms by simp
  then show ?thesis
    by (simp add: apply_train_filters_def apply_train_filter_def)
qed


lemma apply_custom_filters_unknown:
  "(column, vals) \<in> set fs \<Longrightarrow> column \<notin> set (columns data) \<Longrightarrow> apply_custom_filters data fs = None"
proof (induction fs arbitrary: data)
  case Nil
  then show ?case by simp
next
  case (Cons f fs)
  obtain c vs where f: "f = (c, vs)" by (cases f)
  from Cons.prems Cons.IH show ?case by (auto simp: f)
qed

lemma apply_filters_unknown:
  "(column, vals) \<in> set fs \<Longrightarrow> column \<notin> set (columns data) \<Longrightarrow> apply_filters data fs = None"
  by (simp add: apply_filters_def apply_custom_filters_unknown)





section \<open>A run on the example input\<close>

lemma n_partitions_ex: "n_partitions (total_size (csv_sizes env_ex)) = 10"
  by (simp add: n_partitions_def total_size_def env_ex_def)

lemma read_ex: "read_csv env_ex (needed_columns (all_columns env_ex) []) = Some frame_raw"
  by (simp add: env_ex_def needed_columns_def frame_raw_def)

lemma stages_ex:
  "(case process_pairs lib_id (filter_stage fs frame_raw) timestamp_pairs of
      None \<Rightarrow> None
    | Some ddf_t \<Rightarrow>
       (case encode_categorical_columns (\<lambda>em. em) True initial_encoding_maps ddf_t of
          (em, ddf_e, pkl) \<Rightarrow> Some (em, drop_originals ddf_e, pkl)))
   = Some ([(''LINIEN_TEXT'', [(''IC2'', 0), (''IC3'', 1)])], frame_final,
           Some [(''LINIEN_TEXT'', [(''IC2'', 0), (''IC3'', 1)])])"
  if "fs = [] \<or> fs = [(''NOPE'', One (Str ''x''))]"
  using that by (elim disjE; hypsubst) code_simp+

lemma process_data_ex:
  assumes "fs = [] \<or> fs = [(''NOPE'', One (Str ''x''))]"
  shows "process_data lib_id env_ex initial_encoding_maps fs ''out.parquet'' [] =
     Some \<lparr>output_path = ''out.parquet'', written = frame_final, npartitions = 10,
           encodings = [(''LINIEN_TEXT'', [(''IC2'', 0), (''IC3'', 1)])],
           encodings_file = Some [(''LINIEN_TEXT'', [(''IC2'', 0), (''IC3'', 1)])]\<rparr>"
proof -
  have e: "csv_sizes env_ex \<noteq> []" "pickle_dump env_ex = (\<lambda>em. em)" "pickle_writable env_ex"
    "\<And>d n. to_parquet env_ex d n"
    by (simp_all add: env_ex_def)
  show ?thesis
    using stages_ex [OF assms]
    by (simp add: process_data_def read_ex n_partitions_ex e split: option.splits prod.splits)
qed

section \<open>The partition count\<close>

lemma n_partitions_div:
  "n_partitions (total_size sizes) = max 1 (int (2 * sum_list sizes div 1024 ^ 3))"
proof -
  have "real (sum_list sizes) / 1024 ^ 3 * 2 = real (2 * sum_list sizes) / real (1024 ^ 3)"
    by simp
  then have "\<lfloor>real (sum_list sizes) / 1024 ^ 3 * 2\<rfloor> = int (2 * sum_list sizes div 1024 ^ 3)"
    by (simp only: floor_divide_of_nat_eq)
  then show ?thesis by (simp add: n_partitions_def total_size_def)
qed

lemma process_data_npartitions:
  "process_data lib env em fs path excl = Some r \<Longrightarrow> npartitions r = n_partitions (total_size (csv_sizes env))"
  by (auto simp: process_data_def Let_def split: if_splits option.splits prod.splits)

section \<open>The columns through the stages\<close>

lemma evolves_refl: "evolves cs cs"
  unfolding evolves_def by (rule exI [of _ "\<lambda>c. True"], rule exI [of _ "[]"]) simp

lemma evolves_trans:
  assumes "evolves cs1 cs2" "evolves cs2 cs3"
  shows "evolves cs1 cs3"
proof -
  from assms(1) obtain P n1 where 1: "cs2 = filter P cs1 @ n1" "set n1 \<inter> set raw_names = {}"
    "set n1 \<inter> set cs1 = {}" "\<forall>c\<in>set cs1. \<not> P c \<longrightarrow> c \<in> set raw_names"
    unfolding evolves_def by blast
  from assms(2) obtain Q n2 where 2: "cs3 = filter Q cs2 @ n2" "set n2 \<inter> set raw_names = {}"
    "set n2 \<inter> set cs2 = {}" "\<forall>c\<in>set cs2. \<not> Q c \<longrightarrow> c \<in> set raw_names"
    unfolding evolves_def by blast
  have q: "filter Q n1 = n1" using 1(2) 2(4) 1(1) by (auto simp: filter_id_conv)
  have a: "cs3 = filter (\<lambda>c. P c \<and> Q c) cs1 @ (n1 @ n2)"
    by (simp add: 2(1) 1(1) q conj_commute)
  have b: "set (n1 @ n2) \<inter> set raw_names = {}" using 1(2) 2(2) by auto
  have c: "set (n1 @ n2) \<inter> set cs1 = {}"
  proof -
    have "x \<notin> set cs1" if "x \<in> set n2" for x
    proof
      assume x: "x \<in> set cs1"
      show False
      proof (cases "P x")
        case True
        then have "x \<in> set cs2" using x by (simp add: 1(1))
        with that 2(3) show False by auto
      next
        case False
        then have "x \<in> set raw_names" using x 1(4) by blast
        with that 2(2) show False by auto
      qed
    qed
    with 1(3) show ?thesis by auto
  qed
  have d: "\<forall>c\<in>set cs1. \<not> (P c \<and> Q c) \<longrightarrow> c \<in> set raw_names"
    using 1(4) 2(4) by (auto simp: 1(1))
  show ?thesis unfolding evolves_def using a b c d by blast
qed

lemma evolves_order:
  assumes "evolves cs cs'"
  shows "filter (\<lambda>c. c \<in> set cs) cs' = filter (\<lambda>c. c \<in> set cs') cs"
proof -
  from assms obtain P new where 1: "cs' = filter P cs @ new" "set new \<inter> set cs = {}"
    unfolding evolves_def by blast
  have "filter (\<lambda>c. c \<in> set cs) new = []" using 1(2) by (auto simp: filter_empty_conv)
  moreover have "filter (\<lambda>x. P x \<and> x \<in> set cs) cs = filter P cs"
    by (intro filter_cong) auto
  ultimately have "filter (\<lambda>c. c \<in> set cs) cs' = filter P cs"
    by (simp add: 1(1))
  moreover have "filter (\<lambda>c. c \<in> set cs') cs = filter P cs"
    using 1(2) by (intro filter_cong) (auto simp: 1(1))
  ultimately show ?thesis by simp
qed

lemma evolves_raw: "evolves cs cs' \<Longrightarrow> c \<in> set raw_names \<Longrightarrow> c \<in> set cs' \<Longrightarrow> c \<in> set cs"
  unfolding evolves_def by auto

lemma evolves_keeps: "evolves cs cs' \<Longrightarrow> c \<notin> set raw_names \<Longrightarrow> c \<in> set cs \<Longrightarrow> c \<in> set cs'"
  unfolding evolves_def by auto

lemma evolves_append:
  "set new \<inter> set raw_names = {} \<Longrightarrow> set new \<inter> set cs = {} \<Longrightarrow> evolves cs (cs @ new)"
  unfolding evolves_def by (rule exI [of _ "\<lambda>c. True"], rule exI [of _ new]) simp

lemma evolves_filter:
  "set names \<subseteq> set raw_names \<Longrightarrow> evolves cs (filter (\<lambda>c. c \<notin> set names) cs)"
  unfolding evolves_def by (rule exI [of _ "\<lambda>c. c \<notin> set names"], rule exI [of _ "[]"]) auto

lemma evolves_setitem:
  "n \<in> set (columns d) \<or> n \<notin> set raw_names \<Longrightarrow> evolves (columns d) (columns (setitem d n vs))"
  by (auto simp: columns_setitem evolves_refl intro: evolves_append)

lemma evolves_drop_columns:
  "set names \<subseteq> set raw_names \<Longrightarrow> evolves (columns d) (columns (drop_columns d names))"
  by (simp add: evolves_filter)

lemma evolves_filter_stage: "evolves (columns d) (columns (filter_stage fs d))"
proof -
  have "set [an_status, ab_status] \<subseteq> set raw_names" by (simp add: raw_names_def)
  from evolves_drop_columns [OF this] show ?thesis
    by (simp add: filter_stage_def filter_real_status_def evolves_refl)
qed

lemma filter_stage_keeps:
  "c \<noteq> an_status \<Longrightarrow> c \<noteq> ab_status \<Longrightarrow> c \<in> set (columns d) \<Longrightarrow> c \<in> set (columns (filter_stage fs d))"
  by (simp add: filter_stage_def filter_real_status_def)

lemma set_columns_setitem [simp]: "set (columns (setitem d n vs)) = insert n (set (columns d))"
  by (auto simp: columns_setitem)

lemma pair_names_raw:
  "(a, p, x) \<in> set timestamp_pairs \<Longrightarrow> a \<in> set raw_names \<and> p \<in> set raw_names"
  by (force simp: raw_names_def)

lemma pair_names_fresh:
  assumes "(a, p, x) \<in> set timestamp_pairs" "(suffix, part) \<in> set (components lib)"
  shows "a @ suffix \<notin> set raw_names" "p @ suffix \<notin> set raw_names" "x \<notin> set raw_names"
  using assms
  by (auto simp: timestamp_pairs_def components_def raw_names_def an_status_def ab_status_def
      bool_columns_def categorical_columns_def)

lemma diff_name_fresh:
  "(a, p, x) \<in> set timestamp_pairs \<Longrightarrow> x \<notin> set raw_names"
  by (auto simp: timestamp_pairs_def raw_names_def an_status_def ab_status_def
      bool_columns_def categorical_columns_def)

lemma foldl_setitem_columns:
  "set (columns (foldl (\<lambda>d x. setitem d (name x) (val x)) d xs)) = set (columns d) \<union> name ` set xs"
  by (induction xs arbitrary: d) auto

lemma evolves_foldl_setitem:
  "\<forall>x\<in>set xs. name x \<notin> set raw_names \<Longrightarrow>
   evolves (columns d) (columns (foldl (\<lambda>d x. setitem d (name x) (val x)) d xs))"
proof (induction xs arbitrary: d)
  case Nil
  then show ?case by (simp add: evolves_refl)
next
  case (Cons x xs)
  have "evolves (columns d) (columns (setitem d (name x) (val x)))"
    using Cons.prems by (intro evolves_setitem) simp
  moreover have "evolves (columns (setitem d (name x) (val x)))
      (columns (foldl (\<lambda>d x. setitem d (name x) (val x)) (setitem d (name x) (val x)) xs))"
    using Cons.prems by (intro Cons.IH) simp
  ultimately show ?case by (auto intro: evolves_trans)
qed

lemma extract_components_fold:
  "extract_components lib ddf col =
     foldl (\<lambda>d x. setitem d (col @ fst x) (map (snd x) (series ddf col))) ddf (components lib)"
  by (simp add: extract_components_def case_prod_unfold)

lemma extract_components_columns:
  "set (columns (extract_components lib ddf col)) = set (columns ddf) \<union> (\<lambda>x. col @ fst x) ` set (components lib)"
  unfolding extract_components_fold by (rule foldl_setitem_columns)

lemma evolves_extract_components:
  assumes "(a, p, x) \<in> set timestamp_pairs" "col = a \<or> col = p"
  shows "evolves (columns ddf) (columns (extract_components lib ddf col))"
  unfolding extract_components_fold
proof (rule evolves_foldl_setitem, rule ballI)
  fix y assume "y \<in> set (components lib)"
  then have "(fst y, snd y) \<in> set (components lib)" by simp
  from pair_names_fresh(1,2) [OF assms(1) this] assms(2)
  show "col @ fst y \<notin> set raw_names" by auto
qed

lemma process_pair_columns:
  assumes pr: "(a, p, x) \<in> set timestamp_pairs"
    and r: "process_pair lib ddf (a, p, x) = Some ddf'"
  shows "evolves (columns ddf) (columns ddf')"
    and "a \<in> set (columns ddf) \<and> p \<in> set (columns ddf) \<Longrightarrow>
           a \<notin> set (columns ddf') \<and> p \<notin> set (columns ddf')
           \<and> (\<forall>y\<in>set (components lib). a @ fst y \<in> set (columns ddf') \<and> p @ fst y \<in> set (columns ddf'))"
    and "c \<noteq> a \<Longrightarrow> c \<noteq> p \<Longrightarrow> c \<in> set (columns ddf) \<Longrightarrow> c \<in> set (columns ddf')"
proof -
  show "evolves (columns ddf) (columns ddf')"
  proof (cases "a \<in> set (columns ddf) \<and> p \<in> set (columns ddf)")
    case False
    with r show ?thesis by (auto simp: process_pair_def evolves_refl)
  next
    case True
    from r True obtain ta tp where ta: "to_datetime lib (series ddf a) = Some ta"
      and tp: "to_datetime lib (series (setitem ddf a ta) p) = Some tp"
      by (auto simp: process_pair_def Let_def split: option.splits)
    let ?d1 = "setitem ddf a ta"
    let ?d2 = "setitem ?d1 p tp"
    let ?d3 = "setitem ?d2 x (map2 (total_seconds lib) (series ?d2 a) (series ?d2 p))"
    let ?d4 = "extract_components lib ?d3 a"
    let ?d5 = "extract_components lib ?d4 p"
    have d': "ddf' = drop_columns ?d5 [a, p]"
      using r True ta tp by (simp add: process_pair_def Let_def)
    have e1: "evolves (columns ddf) (columns ?d1)" using True by (intro evolves_setitem) simp
    have e2: "evolves (columns ?d1) (columns ?d2)" using True by (intro evolves_setitem) simp
    have e3: "evolves (columns ?d2) (columns ?d3)"
      using diff_name_fresh [OF pr] by (intro evolves_setitem) simp
    have e4: "evolves (columns ?d3) (columns ?d4)"
      by (rule evolves_extract_components [OF pr]) simp
    have e5: "evolves (columns ?d4) (columns ?d5)"
      by (rule evolves_extract_components [OF pr]) simp
    have e6: "evolves (columns ?d5) (columns ddf')"
      unfolding d' using pair_names_raw [OF pr] by (intro evolves_drop_columns) simp
    from e1 e2 e3 e4 e5 e6 show ?thesis by (blast intro: evolves_trans)
  qed
next
  assume True: "a \<in> set (columns ddf) \<and> p \<in> set (columns ddf)"
  from r True obtain ta tp where ta: "to_datetime lib (series ddf a) = Some ta"
    and tp: "to_datetime lib (series (setitem ddf a ta) p) = Some tp"
    by (auto simp: process_pair_def Let_def split: option.splits)
  let ?d1 = "setitem ddf a ta"
  let ?d2 = "setitem ?d1 p tp"
  let ?d3 = "setitem ?d2 x (map2 (total_seconds lib) (series ?d2 a) (series ?d2 p))"
  let ?d4 = "extract_components lib ?d3 a"
  let ?d5 = "extract_components lib ?d4 p"
  have d': "ddf' = drop_columns ?d5 [a, p]"
    using r True ta tp by (simp add: process_pair_def Let_def)
  have fr: "a @ fst y \<noteq> a \<and> a @ fst y \<noteq> p \<and> p @ fst y \<noteq> a \<and> p @ fst y \<noteq> p"
    if "y \<in> set (components lib)" for y
  proof -
    from that have "(fst y, snd y) \<in> set (components lib)" by simp
    from pair_names_fresh(1,2) [OF pr this] pair_names_raw [OF pr] show ?thesis by metis
  qed
  show "a \<notin> set (columns ddf') \<and> p \<notin> set (columns ddf')
           \<and> (\<forall>y\<in>set (components lib). a @ fst y \<in> set (columns ddf') \<and> p @ fst y \<in> set (columns ddf'))"
    unfolding d' using fr by (auto simp: extract_components_columns)
next
  assume c: "c \<noteq> a" "c \<noteq> p" "c \<in> set (columns ddf)"
  show "c \<in> set (columns ddf')"
  proof (cases "a \<in> set (columns ddf) \<and> p \<in> set (columns ddf)")
    case False
    with r c show ?thesis by (auto simp: process_pair_def)
  next
    case True
    from r True obtain ta tp where ta: "to_datetime lib (series ddf a) = Some ta"
      and tp: "to_datetime lib (series (setitem ddf a ta) p) = Some tp"
      by (auto simp: process_pair_def Let_def split: option.splits)
    have "ddf' = drop_columns (extract_components lib (extract_components lib
        (setitem (setitem (setitem ddf a ta) p tp) x
          (map2 (total_seconds lib) (series (setitem (setitem ddf a ta) p tp) a)
            (series (setitem (setitem ddf a ta) p tp) p))) a) p) [a, p]"
      using r True ta tp by (simp add: process_pair_def Let_def)
    then show ?thesis using c by (simp add: extract_components_columns)
  qed
qed

lemma pairs_disjoint:
  assumes "(a, p, x) \<in> set timestamp_pairs" "(a', p', x') \<in> set timestamp_pairs"
    and "a \<in> {a', p'} \<or> p \<in> {a', p'}"
  shows "(a, p, x) = (a', p', x')"
  using assms by (auto simp: timestamp_pairs_def)

lemma process_pairs_columns:
  assumes "set ps \<subseteq> set timestamp_pairs" "process_pairs lib ddf ps = Some ddf'"
  shows "evolves (columns ddf) (columns ddf')"
    and "\<forall>(a, p, x)\<in>set ps. a \<in> set (columns ddf) \<and> p \<in> set (columns ddf) \<longrightarrow>
           a \<notin> set (columns ddf') \<and> p \<notin> set (columns ddf')
           \<and> (\<forall>y\<in>set (components lib). a @ fst y \<in> set (columns ddf') \<and> p @ fst y \<in> set (columns ddf'))"
  using assms
proof (induction ps arbitrary: ddf)
  case Nil
  {
    case 1
    then show ?case by (simp add: evolves_refl)
  next
    case 2
    then show ?case by simp
  }
next
  case (Cons q qs)
  obtain qa qp qx where q: "q = (qa, qp, qx)" by (cases q)
  {
    case 1
    then obtain d1 where d1: "process_pair lib ddf (qa, qp, qx) = Some d1"
      and rest: "process_pairs lib d1 qs = Some ddf'"
      by (auto simp: q split: option.splits)
    from 1 have qin: "(qa, qp, qx) \<in> set timestamp_pairs" and sub: "set qs \<subseteq> set timestamp_pairs"
      by (auto simp: q)
    from process_pair_columns(1) [OF qin d1] Cons.IH(1) [OF sub rest]
    show ?case by (rule evolves_trans)
  next
    case 2
    then obtain d1 where d1: "process_pair lib ddf (qa, qp, qx) = Some d1"
      and rest: "process_pairs lib d1 qs = Some ddf'"
      by (auto simp: q split: option.splits)
    from 2 have qin: "(qa, qp, qx) \<in> set timestamp_pairs" and sub: "set qs \<subseteq> set timestamp_pairs"
      by (auto simp: q)
    have ev: "evolves (columns d1) (columns ddf')" by (rule Cons.IH(1) [OF sub rest])
    have ih: "\<forall>(a, p, x)\<in>set qs. a \<in> set (columns d1) \<and> p \<in> set (columns d1) \<longrightarrow>
           a \<notin> set (columns ddf') \<and> p \<notin> set (columns ddf')
           \<and> (\<forall>y\<in>set (components lib). a @ fst y \<in> set (columns ddf') \<and> p @ fst y \<in> set (columns ddf'))"
      by (rule Cons.IH(2) [OF sub rest])
    have goal: "a \<notin> set (columns ddf') \<and> p \<notin> set (columns ddf')
           \<and> (\<forall>y\<in>set (components lib). a @ fst y \<in> set (columns ddf') \<and> p @ fst y \<in> set (columns ddf'))"
      if m: "(a, p, x) \<in> set (q # qs)" and pres: "a \<in> set (columns ddf) \<and> p \<in> set (columns ddf)"
      for a p x
    proof (cases "(a, p, x) = (qa, qp, qx)")
      case True
      then have eq: "a = qa" "p = qp" by simp_all
      from process_pair_columns(2) [OF qin d1] pres
      have g1: "qa \<notin> set (columns d1) \<and> qp \<notin> set (columns d1)
           \<and> (\<forall>y\<in>set (components lib). qa @ fst y \<in> set (columns d1) \<and> qp @ fst y \<in> set (columns d1))"
        by (simp add: eq)
      have "qa \<notin> set (columns ddf')" "qp \<notin> set (columns ddf')"
        using g1 evolves_raw [OF ev] pair_names_raw [OF qin] by blast+
      moreover have "qa @ fst y \<in> set (columns ddf') \<and> qp @ fst y \<in> set (columns ddf')"
        if "y \<in> set (components lib)" for y
      proof -
        from that have "(fst y, snd y) \<in> set (components lib)" by simp
        from pair_names_fresh(1,2) [OF qin this] g1 that evolves_keeps [OF ev]
        show ?thesis by blast
      qed
      ultimately show ?thesis by (simp add: eq)
    next
      case False
      with m have mq: "(a, p, x) \<in> set qs" by (auto simp: q)
      then have ain: "(a, p, x) \<in> set timestamp_pairs" using sub by auto
      have "\<not> (a \<in> {qa, qp} \<or> p \<in> {qa, qp})"
        using pairs_disjoint [OF ain qin] False by blast
      then have "a \<in> set (columns d1) \<and> p \<in> set (columns d1)"
        using process_pair_columns(3) [OF qin d1] pres by auto
      with ih mq show ?thesis by blast
    qed
    show ?case using goal by blast
  }
qed

lemma raw_names_eval: "raw_names = [''AN_PROGNOSE_STATUS'', ''AB_PROGNOSE_STATUS'', ''ANKUNFTSZEIT'', ''AN_PROGNOSE'',
   ''ABFAHRTSZEIT'', ''AB_PROGNOSE'', ''ZUSATZFAHRT_TF'', ''FAELLT_AUS_TF'', ''DURCHFAHRT_TF'',
   ''FAHRT_BEZEICHNER'', ''BETREIBER_ABK'', ''LINIEN_ID'', ''LINIEN_TEXT'', ''BPUIC'']"
  by (simp add: raw_names_def an_status_def ab_status_def timestamp_pairs_def bool_columns_def categorical_columns_def)

lemma encoded_names_fresh:
  "c \<in> set (bool_columns @ categorical_columns) \<Longrightarrow> encoded_name c \<notin> set raw_names"
  unfolding raw_names_eval
  by (auto simp: bool_columns_def categorical_columns_def encoded_name_def)

lemma loop_post_evolves:
  assumes "loop_post mk key cs em ddf em' out" "set cs \<subseteq> set (bool_columns @ categorical_columns)"
  shows "evolves (columns ddf) (columns out)"
proof -
  from assms(1) obtain new where new: "columns out = columns ddf @ new"
    "set new = encoded_name ` {x \<in> set cs. x \<in> set (columns ddf)} - set (columns ddf)"
    unfolding loop_post_def by blast
  have "x \<notin> set raw_names" if "x \<in> set new" for x
  proof -
    from that new(2) obtain c where c: "c \<in> set cs" "x = encoded_name c" by auto
    have "c \<in> set (bool_columns @ categorical_columns)" by (rule subsetD [OF assms(2) c(1)])
    then show ?thesis unfolding c(2) by (rule encoded_names_fresh)
  qed
  then have "set new \<inter> set raw_names = {}" by auto
  moreover have "set new \<inter> set (columns ddf) = {}" unfolding new(2) by auto
  ultimately show ?thesis unfolding new(1) by (rule evolves_append)
qed

lemma encoder_evolves:
  assumes "encode_categorical_columns dumps cw em ddf = (em', out, art)"
  shows "evolves (columns ddf) (columns out)"
proof -
  from assms obtain em1 ddf1 where
    b: "loop_post (\<lambda>vs. bool_mapping) (\<lambda>v. lower (str v)) bool_columns em ddf em1 ddf1" and
    c: "loop_post (\<lambda>vs. build_mapping (unique vs)) str categorical_columns em1 ddf1 em' out"
    by (rule encoder_loops)
  have "evolves (columns ddf) (columns ddf1)"
    by (rule loop_post_evolves [OF b]) (simp only: set_append, blast)
  moreover have "evolves (columns ddf1) (columns out)"
    by (rule loop_post_evolves [OF c]) (simp only: set_append, blast)
  ultimately show ?thesis by (rule evolves_trans)
qed

lemma drop_originals_columns:
  "columns (drop_originals d) = filter (\<lambda>c. c \<notin> set (bool_columns @ categorical_columns)) (columns d)"
proof -
  let ?all = "bool_columns @ categorical_columns"
  let ?td = "filter (\<lambda>col. col \<in> set (columns d)) ?all"
  have a: "filter (\<lambda>c. c \<notin> set ?td) (columns d) = filter (\<lambda>c. c \<notin> set ?all) (columns d)"
    by (rule filter_cong) auto
  have b: "columns d = filter (\<lambda>c. c \<notin> set ?all) (columns d)" if "?td = []"
  proof -
    from that have "\<forall>c\<in>set ?all. c \<notin> set (columns d)"
      unfolding filter_empty_conv by blast
    then have "\<forall>c\<in>set (columns d). c \<notin> set ?all" by blast
    then show ?thesis unfolding filter_id_conv by simp
  qed
  show ?thesis
  proof (cases "?td = []")
    case True
    then have "drop_originals d = d" unfolding drop_originals_def Let_def by simp
    with b [OF True] show ?thesis by simp
  next
    case False
    then have "drop_originals d = drop_columns d ?td" unfolding drop_originals_def Let_def by simp
    then show ?thesis by (simp only: columns_drop_columns a)
  qed
qed

lemma evolves_drop_originals: "evolves (columns d) (columns (drop_originals d))"
proof -
  have "set (bool_columns @ categorical_columns) \<subseteq> set raw_names"
    unfolding raw_names_def by (simp only: set_append) blast
  then show ?thesis unfolding drop_originals_columns by (rule evolves_filter)
qed

lemma process_pairs_keeps:
  assumes "set ps \<subseteq> set timestamp_pairs" "process_pairs lib ddf ps = Some ddf'"
    and "\<forall>(a, p, x)\<in>set ps. c \<noteq> a \<and> c \<noteq> p" "c \<in> set (columns ddf)"
  shows "c \<in> set (columns ddf')"
  using assms
proof (induction ps arbitrary: ddf)
  case Nil
  then show ?case by simp
next
  case (Cons q qs)
  obtain qa qp qx where q: "q = (qa, qp, qx)" by (cases q)
  from Cons.prems(2) obtain d1 where d1: "process_pair lib ddf (qa, qp, qx) = Some d1"
    and rest: "process_pairs lib d1 qs = Some ddf'"
    by (auto simp: q split: option.splits)
  from Cons.prems(1) have qin: "(qa, qp, qx) \<in> set timestamp_pairs" and sub: "set qs \<subseteq> set timestamp_pairs"
    by (auto simp: q)
  from Cons.prems(3) have ne: "c \<noteq> qa" "c \<noteq> qp" and ne': "\<forall>(a, p, x)\<in>set qs. c \<noteq> a \<and> c \<noteq> p"
    by (auto simp: q)
  have "c \<in> set (columns d1)"
    by (rule process_pair_columns(3) [OF qin d1 ne Cons.prems(4)])
  then show ?case by (rule Cons.IH [OF sub rest ne'])
qed

lemma configured_not_timestamp:
  "c \<in> set (bool_columns @ categorical_columns) \<Longrightarrow>
     c \<noteq> an_status \<and> c \<noteq> ab_status \<and> (\<forall>(a, p, x)\<in>set timestamp_pairs. c \<noteq> a \<and> c \<noteq> p)"
  by (auto simp: bool_columns_def categorical_columns_def an_status_def ab_status_def timestamp_pairs_def)

lemma timestamp_not_status:
  "(a, p, x) \<in> set timestamp_pairs \<Longrightarrow> a \<noteq> an_status \<and> a \<noteq> ab_status \<and> p \<noteq> an_status \<and> p \<noteq> ab_status"
  by (auto simp: an_status_def ab_status_def timestamp_pairs_def)

lemma process_data_stages:
  assumes "read_csv env (needed_columns (all_columns env) excluded) = Some ddf"
    and "process_data lib env em fs path excluded = Some r"
  obtains ddf_t em' ddf_e pkl where
    "process_pairs lib (filter_stage fs ddf) timestamp_pairs = Some ddf_t"
    "encode_categorical_columns (pickle_dump env) (pickle_writable env) em ddf_t = (em', ddf_e, pkl)"
    "written r = drop_originals ddf_e"
proof -
  from assms obtain ddf_t where t: "process_pairs lib (filter_stage fs ddf) timestamp_pairs = Some ddf_t"
    by (auto simp: process_data_def split: if_splits option.splits)
  obtain em' ddf_e pkl where
    e: "encode_categorical_columns (pickle_dump env) (pickle_writable env) em ddf_t = (em', ddf_e, pkl)"
    by (cases "encode_categorical_columns (pickle_dump env) (pickle_writable env) em ddf_t")
  from assms t e have "written r = drop_originals ddf_e"
    by (auto simp: process_data_def Let_def split: if_splits)
  with t e that show ?thesis by blast
qed


section \<open>Claims\<close>




text \<open>
  Claim C2. For a configured boolean column that is in the data frame, the encoder appends
  a column whose value at each row is 0 when the lower-cased stringification of the raw
  value is \<^verbatim>\<open>false\<close>, 1 when it is \<^verbatim>\<open>true\<close>, and the missing value for every other raw value;
  so every encoded value is 0, 1 or missing.
\<close>

theorem boolean_encoding:
  assumes "col \<in> set bool_columns" "col \<in> set (columns ddf)"
    and "encode_categorical_columns dumps cw em ddf = (em', out, art)"
  shows "series out (encoded_name col) =
           map (\<lambda>v. if lower (str v) = ''false'' then Num 0
                     else if lower (str v) = ''true'' then Num 1 else NaN) (series ddf col)
         \<and> set (series out (encoded_name col)) \<subseteq> {Num 0, Num 1, NaN}"
proof -
  have s: "series out (encoded_name col) = map encode_bool_value (series ddf col)"
    using encoder_bool(2) [OF assms(3,1,2)] .
  have fe: "encode_bool_value = (\<lambda>v. if lower (str v) = ''false'' then Num 0
                     else if lower (str v) = ''true'' then Num 1 else NaN)"
    by (simp add: fun_eq_iff encode_bool_value_cases)
  have "series out (encoded_name col) =
           map (\<lambda>v. if lower (str v) = ''false'' then Num 0
                     else if lower (str v) = ''true'' then Num 1 else NaN) (series ddf col)"
    unfolding s fe ..
  then show ?thesis by auto
qed

theorem boolean_encoding_witness:
  "series (fst (snd (encode_categorical_columns id True initial_encoding_maps frame_w)))
      (encoded_name ''DURCHFAHRT_TF'') = [Num 1, Num 0, NaN, NaN]"
proof -
  have c: "''DURCHFAHRT_TF'' \<in> set bool_columns" by (simp add: bool_columns_def)
  have p: "''DURCHFAHRT_TF'' \<in> set (columns frame_w)" by (simp add: columns_def frame_w_def)
  have l: "lower ''TRUE'' = ''true''" "lower ''false'' = ''false''" "lower ''nan'' = ''nan''" "lower ''1'' = ''1''"
    by (simp_all add: lower_def lower_char_def)
  have s: "series frame_w ''DURCHFAHRT_TF'' = [Str ''TRUE'', Str ''false'', NaN, Num 1]"
    by (simp add: series_def frame_w_def)
  have n: "str_int 1 = ''1''" by (simp add: str_int_def digits.simps digit_char_def)
  from boolean_encoding [OF c p encode_frame_w] show ?thesis
    by (simp add: encode_frame_w s l n)
qed





text \<open>
  Claim C4 (amended). A caller filter on a column that is not in the data makes
  \<^verbatim>\<open>_apply_filters\<close> and with it \<^verbatim>\<open>load_and_preprocess_data\<close> return \<^verbatim>\<open>None\<close>.
  \<^verbatim>\<open>process_data\<close> passes such a filter over: the run is the one without it.
\<close>

theorem unknown_filter_column:
  assumes "(column, vals) \<in> set filters" "column \<notin> set (columns data)"
  shows "apply_filters data filters = None
       \<and> load_and_preprocess_data lib flib (Some data) filters output_file_path excluded = None
       \<and> (\<forall>env em fs1 fs2. read_csv env (needed_columns (all_columns env) excluded) = Some data \<longrightarrow>
             process_data lib env em (fs1 @ (column, vals) # fs2) output_file_path excluded
           = process_data lib env em (fs1 @ fs2) output_file_path excluded)"
proof -
  have a: "apply_filters data filters = None"
    using assms by (rule apply_filters_unknown)
  then have b: "load_and_preprocess_data lib flib (Some data) filters output_file_path excluded = None"
    by (simp add: load_and_preprocess_data_def preprocess_and_save_data_def)
  have c: "process_data lib env em (fs1 @ (column, vals) # fs2) output_file_path excluded
           = process_data lib env em (fs1 @ fs2) output_file_path excluded"
    if "read_csv env (needed_columns (all_columns env) excluded) = Some data"
    for env :: "'c environment" and em fs1 fs2
    using that apply_train_filters_skip [OF assms(2), of fs1 vals fs2]
    by (simp add: process_data_def filter_stage_def)
  show ?thesis using a b c by blast
qed

theorem unknown_filter_column_witness:
  "apply_filters frame_raw [(''NOPE'', One (Str ''x''))] = None
   \<and> process_data lib_id env_ex initial_encoding_maps [(''NOPE'', One (Str ''x''))] ''out.parquet'' []
     = process_data lib_id env_ex initial_encoding_maps [] ''out.parquet'' []"
proof -
  have m: "(''NOPE'', One (Str ''x'')) \<in> set [(''NOPE'', One (Str ''x''))]" by simp
  have n: "''NOPE'' \<notin> set (columns frame_raw)" by (simp add: columns_def frame_raw_def)
  from unknown_filter_column [OF m n, of lib_id flib_ex "''out.parquet''" "[]"]
  have "apply_filters frame_raw [(''NOPE'', One (Str ''x''))] = None"
    and "\<forall>(env :: encoding_maps environment) em fs1 fs2.
           read_csv env (needed_columns (all_columns env) []) = Some frame_raw \<longrightarrow>
             process_data lib_id env em (fs1 @ (''NOPE'', One (Str ''x'')) # fs2) ''out.parquet'' []
           = process_data lib_id env em (fs1 @ fs2) ''out.parquet'' []"
    by blast+
  from this(1) this(2) [rule_format, OF read_ex, of initial_encoding_maps "[]" "[]"]
  show ?thesis by simp
qed

text \<open>
  \<^verbatim>\<open>process_data\<close> with a filter on an unknown column returns a result, and no row is
  filtered out.
\<close>

theorem unknown_filter_column_counterexample:
  "\<exists>r. process_data lib_id env_ex initial_encoding_maps [(''NOPE'', One (Str ''x''))] ''out.parquet'' [] = Some r
      \<and> series (written r) ''LINIEN_TEXT_encoded'' = [Num 0, Num 1]"
  by (simp add: process_data_ex frame_final_def series_def)

text \<open>
  Claim C6 (amended). The data frame that \<^verbatim>\<open>process_data\<close> writes holds no configured boolean
  or categorical column, while the encoded counterpart of each such column that was loaded
  is there; for each timestamp pair of which both columns were loaded it holds neither of
  the two raw columns, while the six components of each are there; and the loaded columns
  that remain stand in the order in which they were loaded.
\<close>

theorem final_schema:
  assumes "read_csv env (needed_columns (all_columns env) excluded) = Some ddf"
    and "process_data lib env em fs path excluded = Some r"
  shows "(\<forall>c\<in>set (bool_columns @ categorical_columns).
            c \<notin> set (columns (written r))
          \<and> (c \<in> set (columns ddf) \<longrightarrow> encoded_name c \<in> set (columns (written r))))
       \<and> (\<forall>(a, p, x)\<in>set timestamp_pairs. a \<in> set (columns ddf) \<and> p \<in> set (columns ddf) \<longrightarrow>
            a \<notin> set (columns (written r)) \<and> p \<notin> set (columns (written r))
          \<and> (\<forall>y\<in>set (components lib).
                a @ fst y \<in> set (columns (written r)) \<and> p @ fst y \<in> set (columns (written r))))
       \<and> filter (\<lambda>c. c \<in> set (columns ddf)) (columns (written r))
           = filter (\<lambda>c. c \<in> set (columns (written r))) (columns ddf)"
proof -
  from assms obtain ddf_t em' ddf_e pkl where
    t: "process_pairs lib (filter_stage fs ddf) timestamp_pairs = Some ddf_t" and
    e: "encode_categorical_columns (pickle_dump env) (pickle_writable env) em ddf_t = (em', ddf_e, pkl)" and
    w: "written r = drop_originals ddf_e"
    by (rule process_data_stages)
  let ?f = "filter_stage fs ddf"
  have e1: "evolves (columns ddf) (columns ?f)" by (rule evolves_filter_stage)
  have e2: "evolves (columns ?f) (columns ddf_t)"
    by (rule process_pairs_columns(1) [OF subset_refl t])
  have e3: "evolves (columns ddf_t) (columns ddf_e)" by (rule encoder_evolves [OF e])
  have e4: "evolves (columns ddf_e) (columns (written r))"
    unfolding w by (rule evolves_drop_originals)
  have e34: "evolves (columns ddf_t) (columns (written r))" by (rule evolves_trans [OF e3 e4])
  have e14: "evolves (columns ddf) (columns (written r))"
    by (rule evolves_trans [OF e1 evolves_trans [OF e2 e34]])
  have A: "c \<notin> set (columns (written r))
          \<and> (c \<in> set (columns ddf) \<longrightarrow> encoded_name c \<in> set (columns (written r)))"
    if c: "c \<in> set (bool_columns @ categorical_columns)" for c
  proof
    show "c \<notin> set (columns (written r))"
      unfolding w drop_originals_columns using c by simp
    show "c \<in> set (columns ddf) \<longrightarrow> encoded_name c \<in> set (columns (written r))"
    proof
      assume p: "c \<in> set (columns ddf)"
      from configured_not_timestamp [OF c] have n1: "c \<noteq> an_status" "c \<noteq> ab_status"
        and n2: "\<forall>(a, p, x)\<in>set timestamp_pairs. c \<noteq> a \<and> c \<noteq> p" by simp_all
      have "c \<in> set (columns ?f)" by (rule filter_stage_keeps [OF n1 p])
      then have pt: "c \<in> set (columns ddf_t)" by (rule process_pairs_keeps [OF subset_refl t n2])
      have "encoded_name c \<in> set (columns ddf_e)"
      proof (cases "c \<in> set bool_columns")
        case True
        then show ?thesis by (rule encoder_bool(3) [OF e _ pt])
      next
        case False
        with c have "c \<in> set categorical_columns" by simp
        then show ?thesis by (rule encoder_cat(3) [OF e _ pt])
      qed
      moreover have "encoded_name c \<notin> set (bool_columns @ categorical_columns)"
        using names_no_clash [OF _ c] by blast
      ultimately show "encoded_name c \<in> set (columns (written r))"
        unfolding w drop_originals_columns by simp
    qed
  qed
  have B: "a \<notin> set (columns (written r)) \<and> p \<notin> set (columns (written r))
          \<and> (\<forall>y\<in>set (components lib).
                a @ fst y \<in> set (columns (written r)) \<and> p @ fst y \<in> set (columns (written r)))"
    if m: "(a, p, x) \<in> set timestamp_pairs" and pr: "a \<in> set (columns ddf) \<and> p \<in> set (columns ddf)"
    for a p x
  proof -
    from timestamp_not_status [OF m] pr
    have "a \<in> set (columns ?f) \<and> p \<in> set (columns ?f)"
      by (simp add: filter_stage_keeps)
    with process_pairs_columns(2) [OF subset_refl t] m
    have g: "a \<notin> set (columns ddf_t) \<and> p \<notin> set (columns ddf_t)
           \<and> (\<forall>y\<in>set (components lib). a @ fst y \<in> set (columns ddf_t) \<and> p @ fst y \<in> set (columns ddf_t))"
      by blast
    from pair_names_raw [OF m] have raw: "a \<in> set raw_names" "p \<in> set raw_names" by simp_all
    have "a \<notin> set (columns (written r))" using evolves_raw [OF e34 raw(1)] g by blast
    moreover have "p \<notin> set (columns (written r))" using evolves_raw [OF e34 raw(2)] g by blast
    moreover have "a @ fst y \<in> set (columns (written r)) \<and> p @ fst y \<in> set (columns (written r))"
      if y: "y \<in> set (components lib)" for y
    proof -
      from y have "(fst y, snd y) \<in> set (components lib)" by simp
      from pair_names_fresh(1,2) [OF m this]
      have f: "a @ fst y \<notin> set raw_names" "p @ fst y \<notin> set raw_names" .
      from g y have i: "a @ fst y \<in> set (columns ddf_t)" "p @ fst y \<in> set (columns ddf_t)" by simp_all
      show ?thesis using evolves_keeps [OF e34 f(1) i(1)] evolves_keeps [OF e34 f(2) i(2)] by simp
    qed
    ultimately show ?thesis by simp
  qed
  have C: "filter (\<lambda>c. c \<in> set (columns ddf)) (columns (written r))
           = filter (\<lambda>c. c \<in> set (columns (written r))) (columns ddf)"
    by (rule evolves_order [OF e14])
  have P1: "\<forall>c\<in>set (bool_columns @ categorical_columns).
            c \<notin> set (columns (written r))
          \<and> (c \<in> set (columns ddf) \<longrightarrow> encoded_name c \<in> set (columns (written r)))"
  proof (rule ballI)
    fix c assume "c \<in> set (bool_columns @ categorical_columns)"
    from A [OF this] show "c \<notin> set (columns (written r))
          \<and> (c \<in> set (columns ddf) \<longrightarrow> encoded_name c \<in> set (columns (written r)))" .
  qed
  have P2: "\<forall>(a, p, x)\<in>set timestamp_pairs. a \<in> set (columns ddf) \<and> p \<in> set (columns ddf) \<longrightarrow>
            a \<notin> set (columns (written r)) \<and> p \<notin> set (columns (written r))
          \<and> (\<forall>y\<in>set (components lib).
                a @ fst y \<in> set (columns (written r)) \<and> p @ fst y \<in> set (columns (written r)))"
  proof (rule ballI)
    fix q assume q: "q \<in> set timestamp_pairs"
    obtain a p x where qq: "q = (a, p, x)" by (cases q)
    from B [of a p x] q
    show "case q of (a, p, x) \<Rightarrow> a \<in> set (columns ddf) \<and> p \<in> set (columns ddf) \<longrightarrow>
            a \<notin> set (columns (written r)) \<and> p \<notin> set (columns (written r))
          \<and> (\<forall>y\<in>set (components lib).
                a @ fst y \<in> set (columns (written r)) \<and> p @ fst y \<in> set (columns (written r)))"
      by (simp add: qq)
  qed
  show ?thesis by (intro conjI) (rule P1, rule P2, rule C)
qed

theorem final_schema_witness:
  "''ABFAHRTSZEIT'' \<notin> set (columns frame_final) \<and> ''AB_PROGNOSE'' \<notin> set (columns frame_final)
   \<and> ''LINIEN_TEXT'' \<notin> set (columns frame_final) \<and> ''LINIEN_TEXT_encoded'' \<in> set (columns frame_final)
   \<and> filter (\<lambda>c. c \<in> set (columns frame_raw)) (columns frame_final) = [''ANKUNFTSZEIT'']"
proof -
  have p: "process_data lib_id env_ex initial_encoding_maps [] ''out.parquet'' [] =
     Some \<lparr>output_path = ''out.parquet'', written = frame_final, npartitions = 10,
           encodings = [(''LINIEN_TEXT'', [(''IC2'', 0), (''IC3'', 1)])],
           encodings_file = Some [(''LINIEN_TEXT'', [(''IC2'', 0), (''IC3'', 1)])]\<rparr>"
    by (simp add: process_data_ex)
  have m: "(''ABFAHRTSZEIT'', ''AB_PROGNOSE'', ''DEPARTURE_TIME_DIFF_SECONDS'') \<in> set timestamp_pairs"
    by (simp add: timestamp_pairs_def)
  have c: "''LINIEN_TEXT'' \<in> set (bool_columns @ categorical_columns)"
    by (simp add: categorical_columns_def)
  have pr: "''ABFAHRTSZEIT'' \<in> set (columns frame_raw)" "''AB_PROGNOSE'' \<in> set (columns frame_raw)"
    "''LINIEN_TEXT'' \<in> set (columns frame_raw)"
    by (simp_all add: columns_def frame_raw_def)
  have o: "filter (\<lambda>c. c \<in> set (columns frame_final)) (columns frame_raw) = [''ANKUNFTSZEIT'']"
    by (simp add: columns_def frame_raw_def frame_final_def)
  have w: "written \<lparr>output_path = ''out.parquet'', written = frame_final, npartitions = 10,
           encodings = [(''LINIEN_TEXT'', [(''IC2'', 0), (''IC3'', 1)])],
           encodings_file = Some [(''LINIEN_TEXT'', [(''IC2'', 0), (''IC3'', 1)])]\<rparr> = frame_final"
    by simp
  note F = final_schema [OF read_ex p, unfolded w]
  note 1 = F [THEN conjunct1]
  note 2 = F [THEN conjunct2, THEN conjunct1]
  note 3 = F [THEN conjunct2, THEN conjunct2]
  from 1 [rule_format, OF c] pr(3) have a: "''LINIEN_TEXT'' \<notin> set (columns frame_final)"
    "''LINIEN_TEXT_encoded'' \<in> set (columns frame_final)" by (simp_all add: encoded_name_def)
  from 2 [rule_format, OF m] pr(1,2)
  have b: "''ABFAHRTSZEIT'' \<notin> set (columns frame_final)" "''AB_PROGNOSE'' \<notin> set (columns frame_final)"
    by simp_all
  show ?thesis using a b 3 o by simp
qed

text \<open>
  A timestamp column whose partner was not loaded is written as it was read: here
  \<^verbatim>\<open>ANKUNFTSZEIT\<close> without \<^verbatim>\<open>AN_PROGNOSE\<close>.
\<close>

theorem final_schema_counterexample:
  "\<exists>r. process_data lib_id env_ex initial_encoding_maps [] ''out.parquet'' [] = Some r
      \<and> ''ANKUNFTSZEIT'' \<in> set (columns (written r))
      \<and> series (written r) ''ANKUNFTSZEIT'' = [Str ''01.01.2024 10:05'', Str ''01.01.2024 11:00'']"
  by (simp add: process_data_ex frame_final_def columns_def series_def)

text \<open>
  Claim C8 (amended). In \<^verbatim>\<open>process_data\<close> the partition count handed to the writer is
  \<open>max(1, floor(2 * size in GB))\<close>, the size being the sum of the sizes of the \<^verbatim>\<open>.csv\<close> files
  over \<open>1024^3\<close>: it is never below 1 and it is 10 for 5 GB. \<^verbatim>\<open>save_processed_data\<close> of
  \<^verbatim>\<open>data_processing.py\<close> repartitions to 20, whatever the input.
\<close>

theorem partition_count:
  "n_partitions (total_size sizes) = max 1 \<lfloor>2 * (real (sum_list sizes) / 1024 ^ 3)\<rfloor>
   \<and> n_partitions (total_size sizes) = max 1 (int (2 * sum_list sizes div 1024 ^ 3))
   \<and> 1 \<le> n_partitions (total_size sizes)
   \<and> (sum_list sizes = 5 * 1024 ^ 3 \<longrightarrow> n_partitions (total_size sizes) = 10)
   \<and> (\<forall>r. process_data lib env em fs path excl = Some r \<longrightarrow>
          npartitions r = n_partitions (total_size (csv_sizes env)))
   \<and> (\<forall>s. save_processed_data flib data path = Some s \<longrightarrow> saved_npartitions s = 20)"
proof -
  have a: "n_partitions (total_size sizes) = max 1 \<lfloor>2 * (real (sum_list sizes) / 1024 ^ 3)\<rfloor>"
    by (simp add: n_partitions_def total_size_def mult.commute)
  have b: "1 \<le> n_partitions (total_size sizes)" by (simp add: n_partitions_def)
  have c: "n_partitions (total_size sizes) = 10" if "sum_list sizes = 5 * 1024 ^ 3"
    by (simp add: n_partitions_div that)
  have d: "saved_npartitions s = 20" if "save_processed_data flib data path = Some s" for s
    using that by (auto simp: save_processed_data_def Let_def split: if_splits)
  show ?thesis
    using a b c d n_partitions_div [of sizes] process_data_npartitions [of lib env em fs path excl]
    by blast
qed

theorem partition_count_witness:
  "n_partitions (total_size [3221225472, 2147483648]) = 10
   \<and> npartitions (the (process_data lib_id env_ex initial_encoding_maps [] ''out.parquet'' [])) = 10"
proof -
  have s: "sum_list [3221225472, 2147483648::nat] = 5 * 1024 ^ 3" by simp
  have p: "process_data lib_id env_ex initial_encoding_maps [] ''out.parquet'' [] =
     Some \<lparr>output_path = ''out.parquet'', written = frame_final, npartitions = 10,
           encodings = [(''LINIEN_TEXT'', [(''IC2'', 0), (''IC3'', 1)])],
           encodings_file = Some [(''LINIEN_TEXT'', [(''IC2'', 0), (''IC3'', 1)])]\<rparr>"
    by (simp add: process_data_ex)
  from partition_count [of "[3221225472, 2147483648]" lib_id env_ex initial_encoding_maps "[]" "''out.parquet''" "[]" flib_ex "[]"]
  show ?thesis using s p by simp
qed

text \<open>
  For an input of 1 GB the formula gives 2 partitions; \<^verbatim>\<open>save_processed_data\<close> writes 20.
\<close>

theorem partition_count_counterexample:
  "(\<exists>s. save_processed_data flib_ex frame_final ''out.csv'' = Some s \<and> saved_npartitions s = 20)
   \<and> max 1 \<lfloor>2 * (real (sum_list [1073741824]) / 1024 ^ 3)\<rfloor> = (2::int)"
  by (simp add: save_processed_data_def flib_ex_def)

text \<open>
  Claim C9. When the encodings file is written, and \<^verbatim>\<open>pickle.load\<close> returns what
  \<^verbatim>\<open>pickle.dump\<close> was given, then loading the file yields the table of the encoder: for
  every configured boolean or categorical column of the data frame it holds the dict by
  which the encoded column was computed from the raw one, and, for a processor that starts
  with the empty table of its constructor, it holds no other column.
\<close>

theorem encodings_round_trip:
  assumes "\<And>x. loads (dumps x) = x"
    and "encode_categorical_columns dumps cw em ddf = (em', out, Some blob)"
  shows "loads blob = em'
       \<and> (\<forall>col\<in>set bool_columns. col \<in> set (columns ddf) \<longrightarrow>
            (\<exists>m. map_of (loads blob) col = Some m
               \<and> series out (encoded_name col) = map (\<lambda>v. map_value m (lower (str v))) (series ddf col)))
       \<and> (\<forall>col\<in>set categorical_columns. col \<in> set (columns ddf) \<longrightarrow>
            (\<exists>m. map_of (loads blob) col = Some m
               \<and> series out (encoded_name col) = map (\<lambda>v. map_value m (str v)) (series ddf col)))
       \<and> (em = initial_encoding_maps \<longrightarrow>
            fst ` set (loads blob) = {c \<in> set (bool_columns @ categorical_columns). c \<in> set (columns ddf)})"
proof -
  have "Some blob = (if cw then Some (dumps em') else None)"
    using encoder_artifact [OF assms(2)] .
  then have "blob = dumps em'" by (simp split: if_splits)
  then have l: "loads blob = em'" by (simp add: assms(1))
  have b: "\<exists>m. map_of em' col = Some m
               \<and> series out (encoded_name col) = map (\<lambda>v. map_value m (lower (str v))) (series ddf col)"
    if "col \<in> set bool_columns" "col \<in> set (columns ddf)" for col
    using encoder_bool(1,2) [OF assms(2) that] by (simp add: encode_bool_value_def)
  have c: "\<exists>m. map_of em' col = Some m
               \<and> series out (encoded_name col) = map (\<lambda>v. map_value m (str v)) (series ddf col)"
    if "col \<in> set categorical_columns" "col \<in> set (columns ddf)" for col
    using encoder_cat(1,2) [OF assms(2) that] by simp
  have k: "fst ` set em' = {c \<in> set (bool_columns @ categorical_columns). c \<in> set (columns ddf)}"
    if "em = initial_encoding_maps"
    using encoder_keys_fresh [OF assms(2) [unfolded that]] .
  show ?thesis unfolding l using b c k by blast
qed

theorem encodings_round_trip_witness:
  "map_of (id (the (snd (snd (encode_categorical_columns id True initial_encoding_maps frame_w))))) ''LINIEN_TEXT''
     = Some [(''IC1'', 0), (''IC2'', 1), (''nan'', 2)]
   \<and> series (fst (snd (encode_categorical_columns id True initial_encoding_maps frame_w)))
        (encoded_name ''LINIEN_TEXT'') = [Num 1, Num 0, Num 2, Num 1]"
proof -
  have i: "\<And>x :: encoding_maps. id (id x) = x" by simp
  from encodings_round_trip [of id id, OF i encode_frame_w]
  have "id [(''DURCHFAHRT_TF'', bool_mapping), (''LINIEN_TEXT'', [(''IC1'', 0), (''IC2'', 1), (''nan'', 2)])]
          = fst (encode_categorical_columns id True initial_encoding_maps frame_w)"
    by (simp add: encode_frame_w)
  then show ?thesis by (simp add: encode_frame_w series_def encoded_name_def)
qed



end
